theory Spec2Isabelle
  imports Main "HOL-Library.Sublist" "HOL-Library.Multiset"
begin

section \<open>Research-HUB front end: a shallow embedding of script.js\<close>

text \<open>
  The development follows \<^verbatim>\<open>src/script.js\<close>.  JavaScript strings are modelled as HOL
  strings whose characters are the code units below 256; a JavaScript object used as a
  dictionary is a map; objects that are shared by reference live in an explicit store
  (a list, the address of an object being its index); an exception that leaves a
  function is the \<open>Inl\<close> branch of its result.
\<close>

datatype error = TypeError | ReferenceError

subsection \<open>Summary text: \<^verbatim>\<open>cleanSummary\<close> and \<^verbatim>\<open>formatSummaries\<close> (lines 6--28)\<close>

text \<open>
  The class \<^verbatim>\<open>\s\<close> of the regular expressions and the characters that \<^verbatim>\<open>trim\<close> removes
  coincide; below code unit 256 they are tab, line feed, vertical tab, form feed,
  carriage return, space and the no-break space.
\<close>

definition is_space :: "char \<Rightarrow> bool" where
  "is_space c = (c \<in> {CHR 0x09, CHR 0x0A, CHR 0x0B, CHR 0x0C, CHR 0x0D, CHR 0x20, CHR 0xA0})"

definition trim :: "string \<Rightarrow> string" where
  "trim s = rev (dropWhile is_space (rev (dropWhile is_space s)))"

text \<open>
  Matching under the flag \<^verbatim>\<open>i\<close> compares canonical (upper case) forms.  Every literal
  of the patterns below is an ASCII character, and no character outside ASCII has an
  ASCII canonical form, so only the letters a--z are mapped.
\<close>

definition canonicalize :: "char \<Rightarrow> char" where
  "canonicalize c =
     (let n = of_char c :: nat in if 97 \<le> n \<and> n \<le> 122 then char_of (n - 32) else c)"

text \<open>\<open>match_literal p s\<close>: the literal \<open>p\<close> matched at the start of \<open>s\<close>; the result is what follows it.\<close>

fun match_literal :: "string \<Rightarrow> string \<Rightarrow> string option" where
  "match_literal [] s = Some s"
| "match_literal (p # ps) [] = None"
| "match_literal (p # ps) (c # cs) =
     (if canonicalize c = canonicalize p then match_literal ps cs else None)"

definition preamble :: string where
  "preamble = ''Here are the summaries based on the provided abstract:''"

text \<open>
  \<^verbatim>\<open>.replace(/^Here are the summaries based on the provided abstract:\s*/i, "")\<close>: without
  the flag \<^verbatim>\<open>m\<close> the anchor is the start of the text, and \<^verbatim>\<open>\s*\<close> takes all the white
  space that follows the literal.
\<close>

definition strip_preamble :: "string \<Rightarrow> string" where
  "strip_preamble s =
     (case match_literal preamble s of None \<Rightarrow> s | Some rest \<Rightarrow> dropWhile is_space rest)"

text \<open>
  \<^verbatim>\<open>(.+?)(?=Long Summary|$)\<close> under the flags \<^verbatim>\<open>is\<close>: the shortest non-empty run of
  arbitrary characters after which the text either continues with the literal
  \<^verbatim>\<open>Long Summary\<close> or ends.
\<close>

fun lazy_section :: "string \<Rightarrow> string" where
  "lazy_section [] = []"
| "lazy_section (c # cs) =
     (if cs = [] \<or> match_literal ''Long Summary'' cs \<noteq> None then [c] else c # lazy_section cs)"

text \<open>
  \<^verbatim>\<open>/Short Summary\s*(.+?)(?=Long Summary|$)/is\<close> tried at one position; the result is
  the capture group.  \<^verbatim>\<open>\s*\<close> first takes all the white space after the label; the
  group then starts at the first character that is no white space.  When only white
  space follows the label, backtracking gives the last white space character to the
  group; when nothing follows, the pattern does not match here.
\<close>

definition short_at :: "string \<Rightarrow> string option" where
  "short_at s =
     (case match_literal ''Short Summary'' s of
        None \<Rightarrow> None
      | Some rest \<Rightarrow>
          (let r = dropWhile is_space rest
           in if r \<noteq> [] then Some (lazy_section r)
              else if rest \<noteq> [] then Some [last rest]
              else None))"

text \<open>\<^verbatim>\<open>/Long Summary\s*(.+)$/is\<close> tried at one position: the greedy group runs to the end.\<close>

definition long_at :: "string \<Rightarrow> string option" where
  "long_at s =
     (case match_literal ''Long Summary'' s of
        None \<Rightarrow> None
      | Some rest \<Rightarrow>
          (let r = dropWhile is_space rest
           in if r \<noteq> [] then Some r
              else if rest \<noteq> [] then Some [last rest]
              else None))"

text \<open>\<^verbatim>\<open>String.prototype.match\<close> without the flag \<^verbatim>\<open>g\<close>: the match at the leftmost position.\<close>

fun first_match :: "(string \<Rightarrow> string option) \<Rightarrow> string \<Rightarrow> string option" where
  "first_match f [] = f []"
| "first_match f (c # cs) = (case f (c # cs) of Some g \<Rightarrow> Some g | None \<Rightarrow> first_match f cs)"

text \<open>
  Lines 14--28.  The argument is \<open>None\<close> for \<^verbatim>\<open>null\<close> or \<^verbatim>\<open>undefined\<close>; these and the
  empty string are the falsy texts of line 15.
\<close>

definition formatSummaries :: "string option \<Rightarrow> string \<Rightarrow> string" where
  "formatSummaries arg ty =
     (case arg of
        None \<Rightarrow> []
      | Some t0 \<Rightarrow>
          if t0 = [] then []
          else
            (let t = strip_preamble t0;
                 shortMatch = first_match short_at t;
                 longMatch = first_match long_at t
             in case (if ty = ''short'' then shortMatch else None) of
                  Some g \<Rightarrow> ''<strong>Short Summary:</strong> '' @ trim g
                | None \<Rightarrow>
                    (case (if ty = ''long'' then longMatch else None) of
                       Some g \<Rightarrow> '' '' @ trim g
                     | None \<Rightarrow> trim t)))"

text \<open>
  \<^verbatim>\<open>.replace(/^#+\s*/gm, "")\<close> as a scan over the text.  With the flag \<^verbatim>\<open>m\<close> the anchor
  holds at the start of the text and after a line terminator.  The scanner is either
  outside a match (at a line start or not), inside the run of \<^verbatim>\<open>#\<close>, or inside the
  white space that follows it (remembering whether the last character taken ends a line,
  since the next match may start right there).
\<close>

datatype scan = AtLineStart | InLine | InHashes | InSpaces bool

definition line_terminator :: "char \<Rightarrow> bool" where
  "line_terminator c = (c = CHR 0x0A \<or> c = CHR 0x0D)"

fun strip_headings :: "scan \<Rightarrow> string \<Rightarrow> string" where
  "strip_headings st [] = []"
| "strip_headings st (c # cs) =
     (let at_start = (st = AtLineStart \<or> st = InSpaces True);
          in_match = (st = InHashes \<or> st = InSpaces True \<or> st = InSpaces False)
      in if c = CHR ''#'' \<and> (at_start \<or> st = InHashes) then strip_headings InHashes cs
         else if is_space c \<and> in_match then strip_headings (InSpaces (line_terminator c)) cs
         else c # strip_headings (if line_terminator c then AtLineStart else InLine) cs)"

text \<open>\<^verbatim>\<open>.replace(/\*\*/g, "")\<close>: every pair of asterisks, found from left to right.\<close>

fun strip_bold :: "string \<Rightarrow> string" where
  "strip_bold (a # b # cs) =
     (if a = CHR ''*'' \<and> b = CHR ''*'' then strip_bold cs else a # strip_bold (b # cs))"
| "strip_bold cs = cs"

definition cleanSummary :: "string option \<Rightarrow> string" where
  "cleanSummary arg =
     (case arg of
        None \<Rightarrow> []
      | Some t \<Rightarrow> if t = [] then [] else strip_bold (strip_headings AtLineStart (strip_preamble t)))"

subsection \<open>Graph normalizer: \<^verbatim>\<open>convertToHierarchy\<close> (lines 31--48)\<close>

text \<open>
  The input graph, as the mindmap payload declares it: nodes with an id and a label,
  edges with the ids of their two ends.  Ids are strings (property keys).
\<close>

record gnode =
  n_id :: string
  n_label :: string

record gedge =
  e_from :: string
  e_to :: string

record graph =
  nodes :: "gnode list"
  edges :: "gedge list"

text \<open>
  A hierarchy object \<^verbatim>\<open>{ name, children }\<close> lives in a store, and a reference to it is an
  address.  A children array holds whatever line 39 pushes.  That is a reference to a
  hierarchy object, or one of the other values that a lookup in \<^verbatim>\<open>nodesById\<close> can find
  (see \<open>get_property\<close>): a member of \<^verbatim>\<open>Object.prototype\<close>, named by its key; the
  \<^verbatim>\<open>name\<close> of a hierarchy object, a string; or the \<^verbatim>\<open>children\<close> array of the hierarchy
  object at an address.
\<close>

type_synonym addr = nat

datatype child =
  HObject addr | ProtoMember string | LabelString string | ChildArray addr

record hnode =
  h_name :: string
  h_children :: "child list"

type_synonym hstore = "hnode list"

text \<open>
  Lines 32--35.  \<^verbatim>\<open>nodesById\<close> is an object literal, so its prototype is
  \<^verbatim>\<open>Object.prototype\<close>.  Every declared node allocates a fresh object and assigns it
  under its id: this makes an own property and replaces the one of an earlier node with
  the same id.  The one exception is the id \<^verbatim>\<open>__proto__\<close>, an accessor of
  \<^verbatim>\<open>Object.prototype\<close>: the assignment makes no own property, it sets the prototype of
  \<^verbatim>\<open>nodesById\<close> to the new object.  The map below holds the own properties and, under the
  key \<^verbatim>\<open>__proto__\<close>, that prototype.
\<close>

definition register_node :: "gnode \<Rightarrow> hstore \<times> (string \<rightharpoonup> addr) \<Rightarrow> hstore \<times> (string \<rightharpoonup> addr)" where
  "register_node n = (\<lambda>(h, nodesById).
     (h @ [\<lparr>h_name = n_label n, h_children = []\<rparr>], nodesById(n_id n \<mapsto> length h)))"

text \<open>The property names of \<^verbatim>\<open>Object.prototype\<close> (ECMAScript, with its Annex B).\<close>

definition object_prototype_members :: "string list" where
  "object_prototype_members =
     [''constructor'', ''hasOwnProperty'', ''isPrototypeOf'', ''propertyIsEnumerable'',
      ''toLocaleString'', ''toString'', ''valueOf'', ''__proto__'', ''__defineGetter__'',
      ''__defineSetter__'', ''__lookupGetter__'', ''__lookupSetter__'']"

text \<open>
  The lookup \<^verbatim>\<open>nodesById[k]\<close>; \<open>None\<close> is \<^verbatim>\<open>undefined\<close>.  An own property comes first
  (for \<^verbatim>\<open>__proto__\<close>, the prototype that was set: the getter returns it).  Then comes the
  prototype chain: a hierarchy object that was set as the prototype has the own
  properties \<^verbatim>\<open>name\<close> and \<^verbatim>\<open>children\<close>; at the end of the chain \<^verbatim>\<open>Object.prototype\<close> has
  its members (under \<^verbatim>\<open>__proto__\<close>, when no prototype was set, the object
  \<^verbatim>\<open>Object.prototype\<close> itself).
\<close>

definition get_property :: "(string \<rightharpoonup> addr) \<Rightarrow> hstore \<Rightarrow> string \<Rightarrow> child option" where
  "get_property nodesById h k =
     (case nodesById k of
        Some a \<Rightarrow> Some (HObject a)
      | None \<Rightarrow>
          (case (case nodesById ''__proto__'' of
                   None \<Rightarrow> None
                 | Some p \<Rightarrow>
                     if k = ''name'' then Some (LabelString (h_name (h ! p)))
                     else if k = ''children'' then Some (ChildArray p)
                     else None) of
             Some v \<Rightarrow> Some v
           | None \<Rightarrow> if k \<in> set object_prototype_members then Some (ProtoMember k) else None))"

text \<open>Truth of a looked-up value: objects, arrays and functions are truthy, a string unless it is empty.\<close>

definition truthy :: "child option \<Rightarrow> bool" where
  "truthy v = (case v of None \<Rightarrow> False | Some (LabelString s) \<Rightarrow> s \<noteq> [] | Some _ \<Rightarrow> True)"

text \<open>
  Lines 38--40 for one edge.  When both lookups are truthy, line 39 reads \<^verbatim>\<open>children\<close> of
  the value found for the source: for a hierarchy object that is its array, onto which
  the value found for the target is pushed; a function, \<^verbatim>\<open>Object.prototype\<close>, a string
  and an array have no \<^verbatim>\<open>children\<close>, so reading \<^verbatim>\<open>push\<close> of \<^verbatim>\<open>undefined\<close> throws a
  TypeError.
\<close>

definition link_edge :: "(string \<rightharpoonup> addr) \<Rightarrow> gedge \<Rightarrow> hstore \<Rightarrow> error + hstore" where
  "link_edge nodesById e h =
     (if truthy (get_property nodesById h (e_from e)) \<and> truthy (get_property nodesById h (e_to e))
      then
        (case get_property nodesById h (e_from e) of
           Some (HObject a) \<Rightarrow>
             (case get_property nodesById h (e_to e) of
                Some v \<Rightarrow> Inr (h[a := (h ! a)\<lparr>h_children := h_children (h ! a) @ [v]\<rparr>])
              | None \<Rightarrow> Inr h)
         | _ \<Rightarrow> Inl TypeError)
      else Inr h)"

text \<open>Lines 37--41: the edges in order; an exception ends the loop.\<close>

fun link_edges :: "(string \<rightharpoonup> addr) \<Rightarrow> gedge list \<Rightarrow> hstore \<Rightarrow> error + hstore" where
  "link_edges nodesById [] h = Inr h"
| "link_edges nodesById (e # es) h =
     (case link_edge nodesById e h of
        Inl x \<Rightarrow> Inl x
      | Inr h' \<Rightarrow> link_edges nodesById es h')"

definition build_store :: "graph \<Rightarrow> error + hstore \<times> (string \<rightharpoonup> addr)" where
  "build_store g =
     (let (h0, nodesById) = fold register_node (nodes g) ([], Map.empty)
      in case link_edges nodesById (edges g) h0 of
           Inl x \<Rightarrow> Inl x
         | Inr h \<Rightarrow> Inr (h, nodesById))"

text \<open>
  Lines 44--45: the targets of all edges; the first declared node that is no target, or
  else \<^verbatim>\<open>graph.nodes[0]\<close>, which is \<^verbatim>\<open>undefined\<close> (here \<open>None\<close>) for an empty node list.
\<close>

definition targets :: "graph \<Rightarrow> string set" where
  "targets g = set (map e_to (edges g))"

definition rootNode :: "graph \<Rightarrow> gnode option" where
  "rootNode g =
     (case find (\<lambda>n. n_id n \<notin> targets g) (nodes g) of
        Some n \<Rightarrow> Some n
      | None \<Rightarrow> (case nodes g of [] \<Rightarrow> None | n # _ \<Rightarrow> Some n))"

text \<open>
  Line 47: reading \<^verbatim>\<open>rootNode.id\<close> of \<^verbatim>\<open>undefined\<close> throws a TypeError; otherwise the
  result is what the lookup under the root's id finds, returned together with the store
  it points into.
\<close>

definition convertToHierarchy :: "graph \<Rightarrow> error + hstore \<times> child option" where
  "convertToHierarchy g =
     (case build_store g of
        Inl x \<Rightarrow> Inl x
      | Inr (h, nodesById) \<Rightarrow>
          (case rootNode g of
             None \<Rightarrow> Inl TypeError
           | Some r \<Rightarrow> Inr (h, get_property nodesById h (n_id r))))"

text \<open>
  What \<^verbatim>\<open>name\<close> reads on a value that is no hierarchy object: the name of the function
  for a function member of \<^verbatim>\<open>Object.prototype\<close>; nothing (here the empty string) for
  \<^verbatim>\<open>Object.prototype\<close> itself, for a string and for an array.
\<close>

definition datum_name :: "child \<Rightarrow> string" where
  "datum_name v =
     (case v of
        ProtoMember k \<Rightarrow>
          if k = ''constructor'' then ''Object'' else if k = ''__proto__'' then [] else k
      | _ \<Rightarrow> [])"

text \<open>
  The tree that a traversal of \<^verbatim>\<open>children\<close> reads off the store from a value.  A value
  that is no hierarchy object has no \<^verbatim>\<open>children\<close> and is a leaf.  The object graph may be
  cyclic, so the traversal carries fuel; \<open>None\<close> is a traversal that did not finish
  within it.
\<close>

datatype htree = HNode (t_name: string) (t_children: "htree list")

fun unfold_tree :: "nat \<Rightarrow> hstore \<Rightarrow> child \<Rightarrow> htree option" where
  "unfold_tree 0 h v = None"
| "unfold_tree (Suc k) h v =
     (case v of
        HObject a \<Rightarrow>
          if a < length h
          then map_option (HNode (h_name (h ! a))) (those (map (unfold_tree k h) (h_children (h ! a))))
          else None
      | _ \<Rightarrow> Some (HNode (datum_name v) []))"

subsection \<open>Collapsible tree renderer: \<^verbatim>\<open>renderMindmap\<close> (lines 138--249)\<close>

text \<open>
  The renderer works on the node objects of the d3 library, which is no part of
  script.js; what the script relies on is taken from the specification.  A slot of a
  node object is \<open>None\<close> when it holds no array (\<^verbatim>\<open>undefined\<close> or \<^verbatim>\<open>null\<close>: the script and
  the library only ever test a slot for truth).  Layout coordinates, links and
  transitions are left out.
\<close>

text \<open>
  Modelled from the spec: the tree render node of d3, which is not in script.js.  It
  wraps a hierarchy node (here its name) and has two child-list slots, the visible
  children (\<^verbatim>\<open>children\<close>) and the hidden ones (\<^verbatim>\<open>_children\<close>, here \<open>hidden\<close>), and an
  identity \<^verbatim>\<open>id\<close>.
\<close>

datatype rnode =
  RNode (r_name: string) (children: "rnode list option") (hidden: "rnode list option")
    (r_id: "nat option")

text \<open>
  Modelled from the spec: \<^verbatim>\<open>d3.hierarchy(data)\<close>, which is not in script.js.  It makes a
  fresh node object for every hierarchy node it reaches, so the render nodes form a tree;
  it sets \<^verbatim>\<open>children\<close> only for a non-empty array of children and leaves \<^verbatim>\<open>_children\<close> and
  \<^verbatim>\<open>id\<close> unset.
\<close>

fun hierarchy :: "htree \<Rightarrow> rnode" where
  "hierarchy (HNode nm cs) =
     RNode nm (if cs = [] then None else Some (map hierarchy cs)) None None"

text \<open>Lines 179--185.\<close>

fun collapse :: "rnode \<Rightarrow> rnode" where
  "collapse (RNode nm ch hid k) =
     (case ch of
        None \<Rightarrow> RNode nm ch hid k
      | Some cs \<Rightarrow> RNode nm None (Some (map collapse cs)) k)"

text \<open>Line 175: \<^verbatim>\<open>root.children?.forEach(collapse)\<close>.\<close>

definition collapse_below_root :: "rnode \<Rightarrow> rnode" where
  "collapse_below_root r =
     (case children r of
        None \<Rightarrow> r
      | Some cs \<Rightarrow> RNode (r_name r) (Some (map collapse cs)) (hidden r) (r_id r))"

text \<open>A node object is identified by its position: the child indices on the way from the root.\<close>

type_synonym pos = "nat list"

text \<open>
  Modelled from the spec: \<^verbatim>\<open>root.descendants()\<close> of d3, which is not in script.js.  It
  lists the root and everything reachable through the visible slot, level by level
  (hidden subtrees take no part); each node comes with its position.
\<close>

definition visible_children :: "pos \<times> rnode \<Rightarrow> (pos \<times> rnode) list" where
  "visible_children = (\<lambda>(p, n).
     (case children n of
        None \<Rightarrow> []
      | Some cs \<Rightarrow> map (\<lambda>(i, c). (p @ [i], c)) (enumerate 0 cs)))"

function each_level :: "(pos \<times> rnode) list \<Rightarrow> (pos \<times> rnode) list" where
  "each_level ns = (if ns = [] then [] else ns @ each_level (concat (map visible_children ns)))"
  by pat_completeness auto
termination
proof (relation "measure (\<lambda>ns. sum_list (map (\<lambda>x. size (snd x)) ns))")
  show "wf (measure (\<lambda>ns. sum_list (map (\<lambda>x. size (snd x)) ns)))" by simp
next
  fix ns :: "(pos \<times> rnode) list"
  have enum: "map (\<lambda>x. f (snd x)) (enumerate k cs) = map f cs"
    for f :: "rnode \<Rightarrow> nat" and k cs
    by (induction cs arbitrary: k) simp_all
  have less: "sum_list (map (\<lambda>x. size (snd x)) (visible_children pn)) < size (snd pn)" for pn
  proof (cases pn)
    case (Pair p n)
    show ?thesis
    proof (cases n)
      case (RNode nm ch hid k)
      show ?thesis
      proof (cases ch)
        case None
        then show ?thesis using Pair RNode by (simp add: visible_children_def)
      next
        case (Some cs)
        have "map (\<lambda>x. size (snd x)) (map (\<lambda>(i, c). (p @ [i], c)) (enumerate 0 cs)) = map size cs"
          by (simp add: comp_def case_prod_unfold enum)
        then show ?thesis using Pair RNode Some
          by (simp add: visible_children_def size_list_conv_sum_list)
      qed
    qed
  qed
  assume "ns \<noteq> []"
  then show "(concat (map visible_children ns), ns)
      \<in> measure (\<lambda>ns. sum_list (map (\<lambda>x. size (snd x)) ns))"
  proof (induction ns rule: list_nonempty_induct)
    case (single x)
    then show ?case using less[of x] by simp
  next
    case (cons x xs)
    then show ?case using less[of x] by simp
  qed
qed

definition descendants :: "rnode \<Rightarrow> (pos \<times> rnode) list" where
  "descendants r = each_level [([], r)]"

text \<open>
  The children of a node object, in whichever slot they are.  Positions run through
  \<open>kids\<close>, so that moving the children from one slot to the other moves no node.
\<close>

definition kids :: "rnode \<Rightarrow> rnode list" where
  "kids n = (case children n of Some cs \<Rightarrow> cs | None \<Rightarrow> (case hidden n of Some hs \<Rightarrow> hs | None \<Rightarrow> []))"

fun node_at :: "rnode \<Rightarrow> pos \<Rightarrow> rnode option" where
  "node_at n [] = Some n"
| "node_at n (i # p) = (if i < length (kids n) then node_at (kids n ! i) p else None)"

text \<open>\<open>modify_at f p r\<close>: the tree after the assignments \<open>f\<close> to the node object at position \<open>p\<close>.\<close>

fun modify_at :: "(rnode \<Rightarrow> rnode) \<Rightarrow> pos \<Rightarrow> rnode \<Rightarrow> rnode" where
  "modify_at f [] n = f n"
| "modify_at f (i # p) n =
     (case children n of
        Some cs \<Rightarrow>
          (if i < length cs
           then RNode (r_name n) (Some (cs[i := modify_at f p (cs ! i)])) (hidden n) (r_id n)
           else n)
      | None \<Rightarrow>
          (case hidden n of
             Some hs \<Rightarrow>
               (if i < length hs
                then RNode (r_name n) None (Some (hs[i := modify_at f p (hs ! i)])) (r_id n)
                else n)
           | None \<Rightarrow> n))"

text \<open>All node objects of a tree, in both slots.\<close>

fun subnodes :: "rnode \<Rightarrow> rnode list" where
  "subnodes (RNode nm ch hid k) =
     RNode nm ch hid k #
       concat (map subnodes (case ch of None \<Rightarrow> [] | Some cs \<Rightarrow> cs)) @
       concat (map subnodes (case hid of None \<Rightarrow> [] | Some hs \<Rightarrow> hs))"

text \<open>
  Lines 215--221, the assignments of the click handler to the clicked node \<^verbatim>\<open>d\<close>.  An
  array is truthy even when it is empty.
\<close>

definition toggle :: "rnode \<Rightarrow> rnode" where
  "toggle d =
     (case children d of
        Some cs \<Rightarrow> RNode (r_name d) None (Some cs) (r_id d)
      | None \<Rightarrow> RNode (r_name d) (hidden d) None (r_id d))"

text \<open>
  Line 208, the key function \<^verbatim>\<open>d => d.id || (d.id = ++i)\<close>.  The identifier \<^verbatim>\<open>i\<close> is free
  in script.js: no enclosing function and no top-level statement declares it (the \<^verbatim>\<open>i\<close>
  of line 89 is local to its loop).  Its binding in the global scope is therefore part of
  the state: \<open>None\<close> when no script has declared it, in which case evaluating \<^verbatim>\<open>++i\<close>
  throws a ReferenceError.  An id is truthy when it is a number other than zero.  The
  result is the key, the node after the assignment and the binding after the increment.
\<close>

definition node_key :: "nat option \<Rightarrow> rnode \<Rightarrow> error + nat \<times> rnode \<times> nat option" where
  "node_key i d =
     (case (case r_id d of None \<Rightarrow> None | Some k \<Rightarrow> if k = 0 then None else Some k) of
        Some k \<Rightarrow> Inr (k, d, i)
      | None \<Rightarrow>
          (case i of
             None \<Rightarrow> Inl ReferenceError
           | Some c \<Rightarrow> Inr (Suc c, RNode (r_name d) (children d) (hidden d) (Some (Suc c)), Some (Suc c))))"

text \<open>
  The key function applied to the data of the join, node by node in the order of
  \<^verbatim>\<open>nodes\<close>; the assignments are made to the node objects in the tree.
\<close>

fun node_keys :: "nat option \<Rightarrow> pos list \<Rightarrow> rnode \<Rightarrow> error + nat list \<times> rnode \<times> nat option" where
  "node_keys i [] r = Inr ([], r, i)"
| "node_keys i (p # ps) r =
     (case node_at r p of
        None \<Rightarrow> node_keys i ps r
      | Some d \<Rightarrow>
          (case node_key i d of
             Inl e \<Rightarrow> Inl e
           | Inr (k, d', i') \<Rightarrow>
               (case node_keys i' ps (modify_at (\<lambda>_. d') p r) of
                  Inl e \<Rightarrow> Inl e
                | Inr (ks, r', i'') \<Rightarrow> Inr (k # ks, r', i''))))"

text \<open>
  Modelled from the spec: the keyed data join of d3
  (\<^verbatim>\<open>selectAll("g.node").data(nodes, key)\<close>), which is not in script.js.  An element whose
  key equals the key of a datum is kept for that datum (and for no other); a datum
  without an element enters; with \<^verbatim>\<open>enter().append\<close> and \<^verbatim>\<open>exit().remove()\<close> the elements
  afterwards are the kept and the entered ones.  An element is represented by its key;
  the result lists the kept keys, then the entered.
\<close>

fun bind_keys :: "nat list \<Rightarrow> nat list \<Rightarrow> nat list \<times> nat list" where
  "bind_keys elems [] = ([], [])"
| "bind_keys elems (k # ks) =
     (if k \<in> set elems
      then (case bind_keys (removeAll k elems) ks of (kept, entered) \<Rightarrow> (k # kept, entered))
      else (case bind_keys elems ks of (kept, entered) \<Rightarrow> (kept, k # entered)))"

text \<open>
  Lines 187--248, as far as the nodes go: the visible nodes, their keys, and the
  elements after the join.  The state
  is the tree, the binding of \<^verbatim>\<open>i\<close> and the keys of the \<^verbatim>\<open>g.node\<close> elements.  \<open>source\<close>
  is the position of the node the update starts from.
\<close>

definition update :: "pos \<Rightarrow> rnode \<times> nat option \<times> nat list \<Rightarrow> error + rnode \<times> nat option \<times> nat list" where
  "update source = (\<lambda>(root, i, elems).
     (let nodes = descendants root
      in case node_keys i (map fst nodes) root of
           Inl e \<Rightarrow> Inl e
         | Inr (ks, root', i') \<Rightarrow>
             (case bind_keys elems ks of (kept, entered) \<Rightarrow> Inr (root', i', kept @ entered))))"

text \<open>The click handler of lines 214--223 for the node at position \<open>d\<close>.\<close>

definition on_click :: "pos \<Rightarrow> rnode \<times> nat option \<times> nat list \<Rightarrow> error + rnode \<times> nat option \<times> nat list" where
  "on_click d = (\<lambda>(root, i, elems). update d (modify_at toggle d root, i, elems))"

text \<open>
  The argument of \<^verbatim>\<open>renderMindmap\<close>: a falsy value (\<open>Absent\<close>; the empty string is falsy
  as well), a string, or an object.  A payload is either a graph (both \<^verbatim>\<open>nodes\<close> and
  \<^verbatim>\<open>edges\<close> are arrays, which are truthy) or a hierarchy that was built beforehand.
  \<^verbatim>\<open>JSON.parse\<close> is a parameter: \<open>None\<close> is a SyntaxError.
\<close>

datatype payload = Graph graph | Hierarchy htree

datatype arg = Absent | Serialized string | Object payload

text \<open>
  The page: what \<^verbatim>\<open>console.error\<close> has printed, whether the document has an element
  \<^verbatim>\<open>mindmapContainer\<close>, the global binding of \<^verbatim>\<open>i\<close>, and the drawing in the container
  (the render tree and the keys of its \<^verbatim>\<open>g.node\<close> elements) once one was made.
\<close>

record page =
  console :: "string list"
  has_container :: bool
  global_i :: "nat option"
  drawing :: "(rnode \<times> nat list) option"

text \<open>
  Lines 138--177.  The object graph that \<^verbatim>\<open>convertToHierarchy\<close> returns is read by
  \<^verbatim>\<open>d3.hierarchy\<close> through \<open>unfold_tree\<close>; the outer \<open>None\<close> is a traversal that does not
  finish within the fuel.
\<close>

definition renderMindmap ::
    "(string \<Rightarrow> payload option) \<Rightarrow> nat \<Rightarrow> arg \<Rightarrow> page \<Rightarrow> (error + page) option" where
  "renderMindmap parse fuel mindmapJson pg =
     (if mindmapJson = Absent \<or> mindmapJson = Serialized [] then Some (Inr pg)
      else
        case (case mindmapJson of Serialized s \<Rightarrow> parse s | Object d \<Rightarrow> Some d | Absent \<Rightarrow> None) of
          None \<Rightarrow> Some (Inr (pg\<lparr>console := console pg @ [''Invalid mindmap JSON'']\<rparr>))
        | Some d \<Rightarrow>
            (case (case d of
                     Graph g \<Rightarrow> map_sum id Inl (convertToHierarchy g)
                   | Hierarchy t \<Rightarrow> Inr (Inr t)) of
               Inl e \<Rightarrow> Some (Inl e)
             | Inr data \<Rightarrow>
                 if \<not> has_container pg then Some (Inr pg)
                 else
                   (case (case data of
                            Inl (h, None) \<Rightarrow> Some (Inl TypeError)
                          | Inl (h, Some v) \<Rightarrow> map_option Inr (unfold_tree fuel h v)
                          | Inr t \<Rightarrow> Some (Inr t)) of
                      None \<Rightarrow> None
                    | Some (Inl e) \<Rightarrow> Some (Inl e)
                    | Some (Inr t) \<Rightarrow>
                        (case update [] (collapse_below_root (hierarchy t), global_i pg, []) of
                           Inl e \<Rightarrow> Some (Inl e)
                         | Inr (root, i, elems) \<Rightarrow>
                             Some (Inr (pg\<lparr>global_i := i, drawing := Some (root, elems)\<rparr>))))))"

text \<open>
  The page as script.js finds it when it is the only script that declares variables:
  nothing printed, nothing drawn, and no binding of \<^verbatim>\<open>i\<close>.
\<close>

definition script_page :: "bool \<Rightarrow> page" where
  "script_page c = \<lparr>console = [], has_container = c, global_i = None, drawing = None\<rparr>"

subsection \<open>Paper list view: \<^verbatim>\<open>loadPapers\<close> (lines 53--97)\<close>

record paper =
  p_title :: string
  p_published_date :: string

text \<open>
  \<^verbatim>\<open>toLowerCase\<close> on code units below 256: the letters A--Z and the upper case letters
  of Latin-1 (all of 192--222 but the multiplication sign) move up by 32.
\<close>

definition lower_char :: "char \<Rightarrow> char" where
  "lower_char c =
     (let n = of_char c :: nat
      in if (65 \<le> n \<and> n \<le> 90) \<or> (192 \<le> n \<and> n \<le> 222 \<and> n \<noteq> 215) then char_of (n + 32) else c)"

definition toLowerCase :: "string \<Rightarrow> string" where
  "toLowerCase s = map lower_char s"

text \<open>\<^verbatim>\<open>s.includes(t)\<close>: \<open>t\<close> occurs in \<open>s\<close> at some position.\<close>

fun includes_js :: "string \<Rightarrow> string \<Rightarrow> bool" where
  "includes_js [] t = (t = [])"
| "includes_js (c # cs) t = (take (length t) (c # cs) = t \<or> includes_js cs t)"

text \<open>
  A comparator returns a number; \<open>None\<close> is NaN.  \<^verbatim>\<open>Array.prototype.sort\<close> reads a
  comparator through this step, which takes NaN for 0.
\<close>

definition sort_compare :: "('a \<Rightarrow> 'a \<Rightarrow> int option) \<Rightarrow> 'a \<Rightarrow> 'a \<Rightarrow> int" where
  "sort_compare comparefn x y = (case comparefn x y of None \<Rightarrow> 0 | Some v \<Rightarrow> v)"

text \<open>
  The stable sort: insertion from the right, an element moving behind those the
  comparator puts strictly before it.
\<close>

fun insert_by :: "('a \<Rightarrow> 'a \<Rightarrow> int option) \<Rightarrow> 'a \<Rightarrow> 'a list \<Rightarrow> 'a list" where
  "insert_by comparefn x [] = [x]"
| "insert_by comparefn x (y # ys) =
     (if sort_compare comparefn x y > 0 then y # insert_by comparefn x ys else x # y # ys)"

definition sort_by :: "('a \<Rightarrow> 'a \<Rightarrow> int option) \<Rightarrow> 'a list \<Rightarrow> 'a list" where
  "sort_by comparefn xs = foldr (insert_by comparefn) xs []"

text \<open>
  A consistent comparator for a set of values, as ECMAScript defines it: it never
  returns NaN, every value equals itself, equality is symmetric, and equality, less and
  greater are transitive.
\<close>

definition consistent_comparator :: "'a set \<Rightarrow> ('a \<Rightarrow> 'a \<Rightarrow> int option) \<Rightarrow> bool" where
  "consistent_comparator S comparefn =
     (\<forall>a\<in>S. \<forall>b\<in>S. \<forall>c\<in>S.
        comparefn a b \<noteq> None
        \<and> sort_compare comparefn a a = 0
        \<and> (sort_compare comparefn a b = 0 \<longrightarrow> sort_compare comparefn b a = 0)
        \<and> (sort_compare comparefn a b = 0 \<and> sort_compare comparefn b c = 0 \<longrightarrow>
              sort_compare comparefn a c = 0)
        \<and> (sort_compare comparefn a b < 0 \<and> sort_compare comparefn b c < 0 \<longrightarrow>
              sort_compare comparefn a c < 0)
        \<and> (sort_compare comparefn a b > 0 \<and> sort_compare comparefn b c > 0 \<longrightarrow>
              sort_compare comparefn a c > 0))"

text \<open>
  \<^verbatim>\<open>Array.prototype.sort\<close> itself is a parameter, the sort of the engine.  ECMAScript
  requires of it that the result has the elements of the array, and that it is the
  stable sort when the comparator is consistent for them; otherwise the order is left
  to the engine.
\<close>

definition conforming_sort :: "(('a \<Rightarrow> 'a \<Rightarrow> int option) \<Rightarrow> 'a list \<Rightarrow> 'a list) \<Rightarrow> bool" where
  "conforming_sort array_sort =
     (\<forall>comparefn xs.
        mset (array_sort comparefn xs) = mset xs
        \<and> (consistent_comparator (set xs) comparefn \<longrightarrow>
              array_sort comparefn xs = sort_by comparefn xs))"

text \<open>
  The two comparators of lines 69 and 71.  \<^verbatim>\<open>localeCompare\<close> (the collation of the
  browser's locale) and the time value of \<^verbatim>\<open>new Date(s)\<close> (\<open>None\<close> for an invalid date,
  whose time value is NaN) are parameters.  A difference with NaN is NaN.
\<close>

definition by_title :: "(string \<Rightarrow> string \<Rightarrow> int) \<Rightarrow> paper \<Rightarrow> paper \<Rightarrow> int option" where
  "by_title localeCompare a b = Some (localeCompare (p_title a) (p_title b))"

definition by_date :: "(string \<Rightarrow> int option) \<Rightarrow> paper \<Rightarrow> paper \<Rightarrow> int option" where
  "by_date time_value a b =
     (case time_value (p_published_date b) of
        None \<Rightarrow> None
      | Some tb \<Rightarrow> (case time_value (p_published_date a) of None \<Rightarrow> None | Some ta \<Rightarrow> Some (tb - ta)))"

text \<open>
  Lines 56--84: the papers that get a card, in the order of the cards.  \<open>papers\<close> is
  the page that was fetched; \<open>grid\<close> tells whether the document has the element
  \<^verbatim>\<open>papersGrid\<close>; \<open>searchInput\<close> and \<open>sortSelect\<close> are the values of the two controls
  (\<open>None\<close> for a control that is not in the document); \<open>array_sort\<close> is the sort of
  the engine.  Without the grid nothing is rendered.
\<close>

definition loadPapers ::
    "((paper \<Rightarrow> paper \<Rightarrow> int option) \<Rightarrow> paper list \<Rightarrow> paper list) \<Rightarrow>
     (string \<Rightarrow> string \<Rightarrow> int) \<Rightarrow> (string \<Rightarrow> int option) \<Rightarrow> bool \<Rightarrow> string option \<Rightarrow> string option \<Rightarrow>
     paper list \<Rightarrow> paper list option" where
  "loadPapers array_sort localeCompare time_value grid searchInput sortSelect papers =
     (if \<not> grid then None
      else
        (let searchTerm = (case searchInput of None \<Rightarrow> [] | Some v \<Rightarrow> toLowerCase v);
             found = (if searchTerm \<noteq> []
                      then filter (\<lambda>p. includes_js (toLowerCase (p_title p)) searchTerm) papers
                      else papers)
         in Some (if sortSelect = Some ''title''
                  then array_sort (by_title localeCompare) found
                  else array_sort (by_date time_value) found)))"

subsection \<open>Notions of the specification\<close>

text \<open>An id is declared when some node of the graph carries it; an edge is well formed
  when both its ends are declared.\<close>

definition declared :: "graph \<Rightarrow> string \<Rightarrow> bool" where
  "declared g k = (k \<in> set (map n_id (nodes g)))"

definition known_ends :: "graph \<Rightarrow> gedge \<Rightarrow> bool" where
  "known_ends g e = (declared g (e_from e) \<and> declared g (e_to e))"

text \<open>
  A name that the dictionary of the graph inherits: a member of \<^verbatim>\<open>Object.prototype\<close>, or,
  when a node with the id \<^verbatim>\<open>__proto__\<close> is declared, one of the two properties of a
  hierarchy object.  The ends of an edge are plain when each is a declared id or no
  inherited name.
\<close>

definition inherited :: "graph \<Rightarrow> string \<Rightarrow> bool" where
  "inherited g k =
     (k \<in> set object_prototype_members
      \<or> (declared g ''__proto__'' \<and> (k = ''name'' \<or> k = ''children'')))"

definition plain_ends :: "graph \<Rightarrow> bool" where
  "plain_ends g =
     list_all (\<lambda>e. (declared g (e_from e) \<or> \<not> inherited g (e_from e))
                  \<and> (declared g (e_to e) \<or> \<not> inherited g (e_to e))) (edges g)"

text \<open>The expand/collapse state of a node object: which slot holds an array, and of what length.\<close>

definition slot_state :: "rnode \<Rightarrow> nat option \<times> nat option" where
  "slot_state n = (map_option length (children n), map_option length (hidden n))"

text \<open>At most one of the two slots of every node object holds an array.\<close>

definition exclusive :: "rnode \<Rightarrow> bool" where
  "exclusive r = list_all (\<lambda>n. children n = None \<or> hidden n = None) (subnodes r)"

text \<open>A tree without its ids: what remains are the names and the two slots of every node.\<close>

fun strip_ids :: "rnode \<Rightarrow> rnode" where
  "strip_ids (RNode nm ch hid k) =
     RNode nm (map_option (map strip_ids) ch) (map_option (map strip_ids) hid) None"

text \<open>
  The hierarchy that a render tree holds, whichever slot the children of a node are in.
\<close>

fun data_of :: "rnode \<Rightarrow> htree" where
  "data_of (RNode nm (Some cs) hid k) = HNode nm (map data_of cs)"
| "data_of (RNode nm None (Some hs) k) = HNode nm (map data_of hs)"
| "data_of (RNode nm None None k) = HNode nm []"

text \<open>
  The collapsed state of a node object: the visible slot is empty, and the hidden slot
  holds the children, if there are any.
\<close>

definition collapsed :: "rnode \<Rightarrow> bool" where
  "collapsed n = (children n = None \<and> hidden n = (if kids n = [] then None else Some (kids n)))"

text \<open>
  Published date descending: both papers have a valid date and the first is not older
  than the second.
\<close>

definition newer_first :: "(string \<Rightarrow> int option) \<Rightarrow> paper \<Rightarrow> paper \<Rightarrow> bool" where
  "newer_first time_value a b =
     (case time_value (p_published_date a) of
        None \<Rightarrow> False
      | Some ta \<Rightarrow> (case time_value (p_published_date b) of None \<Rightarrow> False | Some tb \<Rightarrow> tb \<le> ta))"

text \<open>The example text of the specification's test of summary cleaning.\<close>

definition example_summary :: string where
  "example_summary =
     ''Here are the summaries based on the provided abstract: Short Summary: foo. Long Summary: bar.''"

section \<open>Properties\<close>

subsection \<open>Graph normalizer\<close>

lemma register_nodes_store:
  "fst (fold register_node ns (h, m)) = h @ map (\<lambda>n. \<lparr>h_name = n_label n, h_children = []\<rparr>) ns"
  by (induction ns arbitrary: h m) (simp_all add: register_node_def)

lemma register_nodes_absent:
  "k \<notin> n_id ` set ns \<Longrightarrow> snd (fold register_node ns (h, m)) k = m k"
  by (induction ns arbitrary: h m) (simp_all add: register_node_def)

lemma register_nodes_present:
  "k \<in> n_id ` set ns \<Longrightarrow>
   \<exists>j<length ns. snd (fold register_node ns (h, m)) k = Some (length h + j) \<and> n_id (ns ! j) = k \<and>
      (\<forall>j'. j < j' \<and> j' < length ns \<longrightarrow> n_id (ns ! j') \<noteq> k)"
proof (induction ns arbitrary: h m)
  case Nil
  then show ?case by simp
next
  case (Cons n ns)
  show ?case
  proof (cases "k \<in> n_id ` set ns")
    case True
    define h' where "h' = h @ [\<lparr>h_name = n_label n, h_children = []\<rparr>]"
    define m' where "m' = m(n_id n \<mapsto> length h)"
    from Cons.IH[OF True, of h' m']
    obtain j where j: "j < length ns"
      "snd (fold register_node ns (h', m')) k = Some (length h' + j)"
      "n_id (ns ! j) = k" "\<forall>j'. j < j' \<and> j' < length ns \<longrightarrow> n_id (ns ! j') \<noteq> k"
      by blast
    have step: "fold register_node (n # ns) (h, m) = fold register_node ns (h', m')"
      by (simp add: register_node_def h'_def m'_def)
    have len: "length h' = Suc (length h)" by (simp add: h'_def)
    show ?thesis
    proof (intro exI[of _ "Suc j"] conjI allI impI)
      show "Suc j < length (n # ns)" using j by simp
      show "snd (fold register_node (n # ns) (h, m)) k = Some (length h + Suc j)"
        using j(2) step len by simp
      show "n_id ((n # ns) ! Suc j) = k" using j by simp
      fix j' assume "Suc j < j' \<and> j' < length (n # ns)"
      then obtain i where "j' = Suc i" "j < i" "i < length ns" by (cases j') auto
      then show "n_id ((n # ns) ! j') \<noteq> k" using j(4) by simp
    qed
  next
    case False
    with Cons.prems have k: "k = n_id n" by auto
    have "snd (fold register_node (n # ns) (h, m)) k = Some (length h)"
      using register_nodes_absent[OF False] by (simp add: register_node_def k)
    moreover have "\<forall>j'. 0 < j' \<and> j' < length (n # ns) \<longrightarrow> n_id ((n # ns) ! j') \<noteq> k"
      using False by (auto simp: nth_Cons split: nat.splits)
    ultimately show ?thesis using k by (intro exI[of _ 0]) simp
  qed
qed

lemma update_children_name:
  "a < length h \<Longrightarrow> h_name (h[b := (h ! b)\<lparr>h_children := cs\<rparr>] ! a) = h_name (h ! a)"
  by (cases "b = a") simp_all

lemma link_edge_length: "link_edge m e h = Inr h' \<Longrightarrow> length h' = length h"
  by (auto simp: link_edge_def split: if_splits option.splits child.splits)

lemma link_edge_name:
  "link_edge m e h = Inr h' \<Longrightarrow> a < length h \<Longrightarrow> h_name (h' ! a) = h_name (h ! a)"
  by (auto simp: link_edge_def update_children_name split: if_splits option.splits child.splits)

lemma link_edge_error: "link_edge m e h = Inl x \<Longrightarrow> x = TypeError"
  by (auto simp: link_edge_def split: if_splits option.splits child.splits)

lemma link_edges_error: "link_edges m es h = Inl x \<Longrightarrow> x = TypeError"
  by (induction es arbitrary: h) (auto simp: link_edge_error split: sum.splits)

lemma link_edges_length: "link_edges m es h = Inr h' \<Longrightarrow> length h' = length h"
proof (induction es arbitrary: h)
  case Nil
  then show ?case by simp
next
  case (Cons e es)
  then show ?case by (auto simp: link_edge_length split: sum.splits)
qed

lemma link_edges_name:
  "link_edges m es h = Inr h' \<Longrightarrow> a < length h \<Longrightarrow> h_name (h' ! a) = h_name (h ! a)"
proof (induction es arbitrary: h)
  case Nil
  then show ?case by simp
next
  case (Cons e es)
  from Cons.prems(1) obtain h1 where 1: "link_edge m e h = Inr h1" "link_edges m es h1 = Inr h'"
    by (auto split: sum.splits)
  have "a < length h1" using link_edge_length[OF 1(1)] Cons.prems(2) by simp
  then have "h_name (h' ! a) = h_name (h1 ! a)" using Cons.IH[OF 1(2)] by simp
  then show ?case using link_edge_name[OF 1(1) Cons.prems(2)] by simp
qed

lemma build_store_error: "build_store g = Inl x \<Longrightarrow> x = TypeError"
  by (auto simp: build_store_def link_edges_error split: prod.splits sum.splits)

lemma build_store_shape:
  "build_store g = Inr (h, m) \<Longrightarrow>
     length h = length (nodes g) \<and>
     (\<forall>a<length h. h_name (h ! a) = n_label (nodes g ! a)) \<and>
     (\<forall>k. k \<notin> n_id ` set (nodes g) \<longrightarrow> m k = None) \<and>
     (\<forall>k\<in>n_id ` set (nodes g). \<exists>j<length (nodes g). m k = Some j \<and> n_id (nodes g ! j) = k \<and>
         (\<forall>j'. j < j' \<and> j' < length (nodes g) \<longrightarrow> n_id (nodes g ! j') \<noteq> k))"
proof -
  assume b: "build_store g = Inr (h, m)"
  obtain h0 m0 where f: "fold register_node (nodes g) ([], Map.empty) = (h0, m0)"
    by (cases "fold register_node (nodes g) ([], Map.empty)")
  from b f have h: "link_edges m0 (edges g) h0 = Inr h" and m: "m = m0"
    by (auto simp: build_store_def split: sum.splits)
  have h0: "h0 = map (\<lambda>n. \<lparr>h_name = n_label n, h_children = []\<rparr>) (nodes g)"
    using register_nodes_store[of "nodes g" "[]" Map.empty] f by simp
  have 1: "length h = length (nodes g)" using link_edges_length[OF h] by (simp add: h0)
  have 2: "\<forall>a<length h. h_name (h ! a) = n_label (nodes g ! a)"
    using 1 link_edges_name[OF h] by (simp add: h0)
  have 3: "\<forall>k. k \<notin> n_id ` set (nodes g) \<longrightarrow> m k = None"
    using register_nodes_absent[of _ "nodes g" "[]" Map.empty] f m by simp
  have 4: "\<forall>k\<in>n_id ` set (nodes g). \<exists>j<length (nodes g). m k = Some j \<and> n_id (nodes g ! j) = k \<and>
         (\<forall>j'. j < j' \<and> j' < length (nodes g) \<longrightarrow> n_id (nodes g ! j') \<noteq> k)"
    using register_nodes_present[of _ "nodes g" "[]" Map.empty] f m by simp
  from 1 2 3 4 show ?thesis by blast
qed

lemma rootNode_cases:
  "nodes g \<noteq> [] \<Longrightarrow>
   \<exists>i<length (nodes g). rootNode g = Some (nodes g ! i) \<and>
     (if \<exists>n\<in>set (nodes g). n_id n \<notin> targets g
      then n_id (nodes g ! i) \<notin> targets g \<and> (\<forall>j<i. n_id (nodes g ! j) \<in> targets g)
      else i = 0)"
proof (cases "find (\<lambda>n. n_id n \<notin> targets g) (nodes g)")
  case None
  assume ne: "nodes g \<noteq> []"
  from None have all: "\<not> (\<exists>n\<in>set (nodes g). n_id n \<notin> targets g)"
    by (auto simp: find_None_iff)
  from ne None have "rootNode g = Some (nodes g ! 0)"
    by (cases "nodes g") (simp_all add: rootNode_def)
  with all ne show ?thesis by (intro exI[of _ 0]) simp
next
  case (Some n)
  then obtain i where i: "i < length (nodes g)" "n_id (nodes g ! i) \<notin> targets g" "n = nodes g ! i"
    "\<forall>j<i. \<not> n_id (nodes g ! j) \<notin> targets g"
    unfolding find_Some_iff by blast
  then have ex: "\<exists>n\<in>set (nodes g). n_id n \<notin> targets g" by (meson nth_mem)
  have "rootNode g = Some (nodes g ! i)" using Some i by (simp add: rootNode_def)
  with i ex show ?thesis by (intro exI[of _ i]) auto
qed

text \<open>The lookup of a plain name finds the own property or nothing.\<close>

lemma get_property_own: "m k = Some a \<Longrightarrow> get_property m h k = Some (HObject a)"
  by (simp add: get_property_def)

lemma get_property_plain:
  "k \<notin> set object_prototype_members \<Longrightarrow> m ''__proto__'' = None \<or> (k \<noteq> ''name'' \<and> k \<noteq> ''children'') \<Longrightarrow>
   get_property m h k = map_option HObject (m k)"
  by (auto simp: get_property_def split: option.splits)

lemma registered_iff_declared:
  "(snd (fold register_node (nodes g) ([], Map.empty)) k \<noteq> None) = declared g k"
proof (cases "k \<in> n_id ` set (nodes g)")
  case True
  with register_nodes_present[OF True, of "[]" Map.empty] show ?thesis
    by (auto simp: declared_def)
next
  case False
  with register_nodes_absent[OF False, of "[]" Map.empty] show ?thesis
    by (simp add: declared_def)
qed

lemma get_property_plain_end:
  assumes m: "\<And>k. (m k \<noteq> None) = declared g k"
    and p: "declared g k \<or> \<not> inherited g k"
  shows "get_property m h k = map_option HObject (m k)"
proof (cases "m k")
  case (Some a)
  then show ?thesis by (simp add: get_property_own)
next
  case None
  then have "\<not> declared g k" using m[of k] by simp
  with p have i: "\<not> inherited g k" by simp
  have "m ''__proto__'' = None \<or> (k \<noteq> ''name'' \<and> k \<noteq> ''children'')"
    using i m[of "''__proto__''"] unfolding inherited_def by blast
  moreover have "k \<notin> set object_prototype_members" using i by (simp add: inherited_def)
  ultimately show ?thesis by (rule get_property_plain[rotated])
qed

lemma link_edge_plain:
  assumes f: "get_property m h (e_from e) = map_option HObject (m (e_from e))"
    and t: "get_property m h (e_to e) = map_option HObject (m (e_to e))"
  shows "link_edge m e h =
     Inr (case m (e_from e) of None \<Rightarrow> h
          | Some a \<Rightarrow> (case m (e_to e) of None \<Rightarrow> h
              | Some b \<Rightarrow> h[a := (h ! a)\<lparr>h_children := h_children (h ! a) @ [HObject b]\<rparr>]))"
  by (simp add: link_edge_def f t truthy_def split: option.splits)

lemma link_edges_plain:
  assumes "\<And>e h. e \<in> set es \<Longrightarrow> get_property m h (e_from e) = map_option HObject (m (e_from e))
              \<and> get_property m h (e_to e) = map_option HObject (m (e_to e))"
  shows "\<exists>h'. link_edges m es h = Inr h'"
  using assms
proof (induction es arbitrary: h)
  case Nil
  then show ?case by simp
next
  case (Cons e es)
  have "\<exists>h1. link_edge m e h = Inr h1"
    using link_edge_plain[of m h e] Cons.prems[of e h] by simp
  then obtain h1 where 1: "link_edge m e h = Inr h1" by blast
  have "\<exists>h'. link_edges m es h1 = Inr h'" using Cons.IH[of h1] Cons.prems by simp
  then show ?case using 1 by simp
qed

lemma link_edges_filter:
  assumes "\<And>e h. e \<in> set es \<Longrightarrow> get_property m h (e_from e) = map_option HObject (m (e_from e))
              \<and> get_property m h (e_to e) = map_option HObject (m (e_to e))"
    and "\<And>e. e \<in> set es \<Longrightarrow> \<not> P e \<Longrightarrow> m (e_from e) = None \<or> m (e_to e) = None"
  shows "link_edges m (filter P es) h = link_edges m es h"
  using assms
proof (induction es arbitrary: h)
  case Nil
  then show ?case by simp
next
  case (Cons e es)
  have ih: "link_edges m (filter P es) h1 = link_edges m es h1" for h1
    using Cons.IH[of h1] Cons.prems by simp
  show ?case
  proof (cases "P e")
    case True
    then show ?thesis by (simp add: ih split: sum.splits)
  next
    case False
    then have "m (e_from e) = None \<or> m (e_to e) = None" using Cons.prems(2)[of e] by simp
    then have "link_edge m e h = Inr h"
      using link_edge_plain[of m h e] Cons.prems(1)[of e h] by (auto split: option.splits)
    then show ?thesis using False by (simp add: ih)
  qed
qed

lemma plain_ends_lookup:
  assumes p: "plain_ends g" and e: "e \<in> set (edges g)"
    and m: "m = snd (fold register_node (nodes g) ([], Map.empty))"
  shows "get_property m h (e_from e) = map_option HObject (m (e_from e))
       \<and> get_property m h (e_to e) = map_option HObject (m (e_to e))"
proof -
  have d: "\<And>k. (m k \<noteq> None) = declared g k" unfolding m by (rule registered_iff_declared)
  from p e have "declared g (e_from e) \<or> \<not> inherited g (e_from e)"
    "declared g (e_to e) \<or> \<not> inherited g (e_to e)"
    by (auto simp: plain_ends_def list_all_iff)
  then show ?thesis using get_property_plain_end[of m g, OF d] by blast
qed

lemma build_store_plain:
  assumes "plain_ends g"
  shows "\<exists>h m. build_store g = Inr (h, m)"
proof -
  obtain h0 m0 where f: "fold register_node (nodes g) ([], Map.empty) = (h0, m0)"
    by (cases "fold register_node (nodes g) ([], Map.empty)")
  have m0: "m0 = snd (fold register_node (nodes g) ([], Map.empty))" using f by simp
  have "\<exists>h'. link_edges m0 (edges g) h0 = Inr h'"
    by (rule link_edges_plain) (rule plain_ends_lookup[OF assms _ m0])
  then show ?thesis using f by (auto simp: build_store_def)
qed

lemma build_store_known_ends:
  assumes "plain_ends g"
  shows "build_store (g\<lparr>edges := filter (known_ends g) (edges g)\<rparr>) = build_store g"
proof -
  obtain h0 m0 where f: "fold register_node (nodes g) ([], Map.empty) = (h0, m0)"
    by (cases "fold register_node (nodes g) ([], Map.empty)")
  have m0: "m0 = snd (fold register_node (nodes g) ([], Map.empty))" using f by simp
  have d: "\<And>k. (m0 k \<noteq> None) = declared g k" unfolding m0 by (rule registered_iff_declared)
  have "link_edges m0 (filter (known_ends g) (edges g)) h0 = link_edges m0 (edges g) h0"
  proof (rule link_edges_filter)
    fix e h assume "e \<in> set (edges g)"
    then show "get_property m0 h (e_from e) = map_option HObject (m0 (e_from e))
       \<and> get_property m0 h (e_to e) = map_option HObject (m0 (e_to e))"
      by (rule plain_ends_lookup[OF assms _ m0])
  next
    fix e assume "\<not> known_ends g e"
    then show "m0 (e_from e) = None \<or> m0 (e_to e) = None"
      using d[of "e_from e"] d[of "e_to e"] by (auto simp: known_ends_def)
  qed
  then show ?thesis
    using f by (simp add: build_store_def)
qed

lemma rootNode_cong:
  assumes "nodes g' = nodes g" "\<And>n. n \<in> set (nodes g) \<Longrightarrow> (n_id n \<in> targets g') = (n_id n \<in> targets g)"
  shows "rootNode g' = rootNode g"
proof -
  have "find (\<lambda>n. n_id n \<notin> targets g') (nodes g) = find (\<lambda>n. n_id n \<notin> targets g) (nodes g)"
    using assms(2) by (intro find_cong) auto
  then show ?thesis unfolding rootNode_def assms(1) by simp
qed

lemma convert_empty: "nodes g = [] \<Longrightarrow> convertToHierarchy g = Inl TypeError"
  by (cases "build_store g")
     (auto simp: convertToHierarchy_def rootNode_def build_store_error split: prod.splits)

text \<open>
  Claim C1, as stated, fails when two nodes are declared with the same id: the object
  registered under an id is the one of the last node declared with it.  With the nodes
  (a, A1) and (a, A2) and no edge, the first declared node whose id is no target is the
  first one, labelled A1; the object returned is the one of the second node, labelled A2.
\<close>

theorem root_selection_counterexample:
  "rootNode \<lparr>nodes = [\<lparr>n_id = ''a'', n_label = ''A1''\<rparr>, \<lparr>n_id = ''a'', n_label = ''A2''\<rparr>], edges = []\<rparr>
     = Some \<lparr>n_id = ''a'', n_label = ''A1''\<rparr>
   \<and> convertToHierarchy
       \<lparr>nodes = [\<lparr>n_id = ''a'', n_label = ''A1''\<rparr>, \<lparr>n_id = ''a'', n_label = ''A2''\<rparr>], edges = []\<rparr>
     = Inr ([\<lparr>h_name = ''A1'', h_children = []\<rparr>, \<lparr>h_name = ''A2'', h_children = []\<rparr>],
            Some (HObject 1))
   \<and> unfold_tree 1 [\<lparr>h_name = ''A1'', h_children = []\<rparr>, \<lparr>h_name = ''A2'', h_children = []\<rparr>]
        (HObject 1) = Some (HNode ''A2'' [])"
  by (simp add: convertToHierarchy_def build_store_def register_node_def rootNode_def targets_def
      get_property_def)

text \<open>
  Nor does every graph with a node give a result: an edge whose source is a name that
  the dictionary inherits from \<^verbatim>\<open>Object.prototype\<close> passes the test of line 38, and
  line 39 throws.
\<close>

lemma inherited_source_throws:
  "convertToHierarchy
     \<lparr>nodes = [\<lparr>n_id = ''a'', n_label = ''A''\<rparr>], edges = [\<lparr>e_from = ''constructor'', e_to = ''a''\<rparr>]\<rparr>
     = Inl TypeError"
  by (simp add: convertToHierarchy_def build_store_def register_node_def get_property_def
      link_edge_def truthy_def object_prototype_members_def)

text \<open>
  Claim C1, amended.  Take a graph with at least one node.  When the ends of its edges
  are plain, \<open>convertToHierarchy\<close> returns.  Whenever it returns, the result is the
  object registered under the id of one declared node, number \<open>i\<close>: when some declared
  node is the target of no edge, \<open>i\<close> is the first such node in declaration order; when
  every declared node is the target of some edge, \<open>i\<close> is the first declared node.  The
  object returned is the one of the last node declared with that id, number \<open>a\<close>, and
  carries its label; it is the object of node \<open>i\<close> itself when the ids are distinct.
\<close>

theorem root_selection:
  assumes ne: "nodes g \<noteq> []"
  shows "(plain_ends g \<longrightarrow> (\<exists>h r. convertToHierarchy g = Inr (h, r)))
       \<and> (\<forall>h r. convertToHierarchy g = Inr (h, r) \<longrightarrow>
            (\<exists>a i. r = Some (HObject a) \<and>
               i < length (nodes g) \<and> a < length (nodes g) \<and> length h = length (nodes g) \<and>
               n_id (nodes g ! a) = n_id (nodes g ! i) \<and>
               (\<forall>j. a < j \<and> j < length (nodes g) \<longrightarrow> n_id (nodes g ! j) \<noteq> n_id (nodes g ! i)) \<and>
               h_name (h ! a) = n_label (nodes g ! a) \<and>
               (distinct (map n_id (nodes g)) \<longrightarrow> a = i) \<and>
               (if \<exists>n\<in>set (nodes g). n_id n \<notin> targets g
                then n_id (nodes g ! i) \<notin> targets g \<and> (\<forall>j<i. n_id (nodes g ! j) \<in> targets g)
                else i = 0)))"
proof (intro conjI allI impI)
  from rootNode_cases[OF ne] obtain i where i: "i < length (nodes g)"
    "rootNode g = Some (nodes g ! i)"
    "if \<exists>n\<in>set (nodes g). n_id n \<notin> targets g
      then n_id (nodes g ! i) \<notin> targets g \<and> (\<forall>j<i. n_id (nodes g ! j) \<in> targets g)
      else i = 0" by blast
  { assume "plain_ends g"
    then obtain h m where "build_store g = Inr (h, m)" using build_store_plain by blast
    then show "\<exists>h r. convertToHierarchy g = Inr (h, r)"
      using i(2) by (simp add: convertToHierarchy_def) }
  fix h r assume c: "convertToHierarchy g = Inr (h, r)"
  then obtain m where b: "build_store g = Inr (h, m)"
    and r: "r = get_property m h (n_id (nodes g ! i))"
    using i(2) by (auto simp: convertToHierarchy_def split: sum.splits)
  note shape = build_store_shape[OF b]
  have "n_id (nodes g ! i) \<in> n_id ` set (nodes g)" using i(1) by simp
  with shape obtain a where a: "a < length (nodes g)" "m (n_id (nodes g ! i)) = Some a"
    "n_id (nodes g ! a) = n_id (nodes g ! i)"
    "\<forall>j. a < j \<and> j < length (nodes g) \<longrightarrow> n_id (nodes g ! j) \<noteq> n_id (nodes g ! i)" by blast
  have res: "r = Some (HObject a)" using r a(2) by (simp add: get_property_own)
  have nm: "h_name (h ! a) = n_label (nodes g ! a)" using shape a(1) by simp
  have dist: "distinct (map n_id (nodes g)) \<longrightarrow> a = i"
  proof
    assume d: "distinct (map n_id (nodes g))"
    have "map n_id (nodes g) ! a = map n_id (nodes g) ! i" using a i by simp
    with d a(1) i(1) show "a = i" unfolding distinct_conv_nth by (metis length_map)
  qed
  from res i(1) a(1) a(3) a(4) nm dist i(3) shape
  show "\<exists>a i. r = Some (HObject a) \<and>
               i < length (nodes g) \<and> a < length (nodes g) \<and> length h = length (nodes g) \<and>
               n_id (nodes g ! a) = n_id (nodes g ! i) \<and>
               (\<forall>j. a < j \<and> j < length (nodes g) \<longrightarrow> n_id (nodes g ! j) \<noteq> n_id (nodes g ! i)) \<and>
               h_name (h ! a) = n_label (nodes g ! a) \<and>
               (distinct (map n_id (nodes g)) \<longrightarrow> a = i) \<and>
               (if \<exists>n\<in>set (nodes g). n_id n \<notin> targets g
                then n_id (nodes g ! i) \<notin> targets g \<and> (\<forall>j<i. n_id (nodes g ! j) \<in> targets g)
                else i = 0)" by blast
qed

theorem root_selection_witness:
  "nodes \<lparr>nodes = [\<lparr>n_id = ''a'', n_label = ''A''\<rparr>, \<lparr>n_id = ''b'', n_label = ''B''\<rparr>,
              \<lparr>n_id = ''c'', n_label = ''C''\<rparr>],
      edges = [\<lparr>e_from = ''b'', e_to = ''a''\<rparr>, \<lparr>e_from = ''b'', e_to = ''c''\<rparr>]\<rparr> \<noteq> []
   \<and> plain_ends \<lparr>nodes = [\<lparr>n_id = ''a'', n_label = ''A''\<rparr>, \<lparr>n_id = ''b'', n_label = ''B''\<rparr>,
              \<lparr>n_id = ''c'', n_label = ''C''\<rparr>],
      edges = [\<lparr>e_from = ''b'', e_to = ''a''\<rparr>, \<lparr>e_from = ''b'', e_to = ''c''\<rparr>]\<rparr>
   \<and> (\<exists>h a i. convertToHierarchy
         \<lparr>nodes = [\<lparr>n_id = ''a'', n_label = ''A''\<rparr>, \<lparr>n_id = ''b'', n_label = ''B''\<rparr>,
              \<lparr>n_id = ''c'', n_label = ''C''\<rparr>],
          edges = [\<lparr>e_from = ''b'', e_to = ''a''\<rparr>, \<lparr>e_from = ''b'', e_to = ''c''\<rparr>]\<rparr>
            = Inr (h, Some (HObject a))
        \<and> a = i \<and> i = 1 \<and> h_name (h ! a) = ''B'')
   \<and> nodes \<lparr>nodes = [\<lparr>n_id = ''a'', n_label = ''A''\<rparr>, \<lparr>n_id = ''b'', n_label = ''B''\<rparr>],
      edges = [\<lparr>e_from = ''a'', e_to = ''b''\<rparr>, \<lparr>e_from = ''b'', e_to = ''a''\<rparr>]\<rparr> \<noteq> []
   \<and> plain_ends \<lparr>nodes = [\<lparr>n_id = ''a'', n_label = ''A''\<rparr>, \<lparr>n_id = ''b'', n_label = ''B''\<rparr>],
      edges = [\<lparr>e_from = ''a'', e_to = ''b''\<rparr>, \<lparr>e_from = ''b'', e_to = ''a''\<rparr>]\<rparr>
   \<and> (\<exists>h a i. convertToHierarchy
         \<lparr>nodes = [\<lparr>n_id = ''a'', n_label = ''A''\<rparr>, \<lparr>n_id = ''b'', n_label = ''B''\<rparr>],
          edges = [\<lparr>e_from = ''a'', e_to = ''b''\<rparr>, \<lparr>e_from = ''b'', e_to = ''a''\<rparr>]\<rparr>
            = Inr (h, Some (HObject a))
        \<and> a = i \<and> i = 0 \<and> h_name (h ! a) = ''A'')"
proof -
  let ?g = "\<lparr>nodes = [\<lparr>n_id = ''a'', n_label = ''A''\<rparr>, \<lparr>n_id = ''b'', n_label = ''B''\<rparr>,
              \<lparr>n_id = ''c'', n_label = ''C''\<rparr>],
      edges = [\<lparr>e_from = ''b'', e_to = ''a''\<rparr>, \<lparr>e_from = ''b'', e_to = ''c''\<rparr>]\<rparr>"
  have ne: "nodes ?g \<noteq> []" by simp
  have p: "plain_ends ?g" by (simp add: plain_ends_def declared_def)
  have d: "distinct (map n_id (nodes ?g))" by simp
  have t: "targets ?g = {''a'', ''c''}" by (auto simp: targets_def)
  note inst = root_selection[OF ne]
  from inst p obtain h r where c: "convertToHierarchy ?g = Inr (h, r)" by blast
  with inst obtain a i where r:
    "r = Some (HObject a)" "i < length (nodes ?g)"
    "h_name (h ! a) = n_label (nodes ?g ! a)"
    "distinct (map n_id (nodes ?g)) \<longrightarrow> a = i"
    "if \<exists>n\<in>set (nodes ?g). n_id n \<notin> targets ?g
     then n_id (nodes ?g ! i) \<notin> targets ?g \<and> (\<forall>j<i. n_id (nodes ?g ! j) \<in> targets ?g)
     else i = 0" by blast
  from r(4) d have ai: "a = i" by blast
  have ex: "\<exists>n\<in>set (nodes ?g). n_id n \<notin> targets ?g" unfolding t by simp
  with r(5) have "n_id (nodes ?g ! i) \<notin> targets ?g" by presburger
  with r(2) have "i = 1" unfolding t by (auto simp: less_Suc_eq numeral_3_eq_3)
  with c r(1) r(3) ai have first: "\<exists>h a i. convertToHierarchy ?g = Inr (h, Some (HObject a))
        \<and> a = i \<and> i = 1 \<and> h_name (h ! a) = ''B''" by auto
  let ?c = "\<lparr>nodes = [\<lparr>n_id = ''a'', n_label = ''A''\<rparr>, \<lparr>n_id = ''b'', n_label = ''B''\<rparr>],
      edges = [\<lparr>e_from = ''a'', e_to = ''b''\<rparr>, \<lparr>e_from = ''b'', e_to = ''a''\<rparr>]\<rparr>"
  have ne': "nodes ?c \<noteq> []" by simp
  have p': "plain_ends ?c" by (simp add: plain_ends_def declared_def)
  have d': "distinct (map n_id (nodes ?c))" by simp
  have t': "targets ?c = {''a'', ''b''}" by (auto simp: targets_def)
  note inst' = root_selection[OF ne']
  from inst' p' obtain h' r' where c': "convertToHierarchy ?c = Inr (h', r')" by blast
  with inst' obtain a' i' where r':
    "r' = Some (HObject a')"
    "h_name (h' ! a') = n_label (nodes ?c ! a')"
    "distinct (map n_id (nodes ?c)) \<longrightarrow> a' = i'"
    "if \<exists>n\<in>set (nodes ?c). n_id n \<notin> targets ?c
     then n_id (nodes ?c ! i') \<notin> targets ?c \<and> (\<forall>j<i'. n_id (nodes ?c ! j) \<in> targets ?c)
     else i' = 0" by blast
  from r'(3) d' have ai': "a' = i'" by blast
  have "\<not> (\<exists>n\<in>set (nodes ?c). n_id n \<notin> targets ?c)" unfolding t' by simp
  with r'(4) have "i' = 0" by presburger
  with c' r'(1) r'(2) ai' have second: "\<exists>h a i. convertToHierarchy ?c = Inr (h, Some (HObject a))
        \<and> a = i \<and> i = 0 \<and> h_name (h ! a) = ''A''" by auto
  from ne p first ne' p' second show ?thesis by blast
qed

lemma mset_two: "mset xs = {#x, y#} \<Longrightarrow> xs = [x, y] \<or> xs = [y, x]"
proof -
  assume m: "mset xs = {#x, y#}"
  then have "length xs = 2" by (metis size_mset size_add_mset size_empty numeral_2_eq_2)
  then obtain p q where xs: "xs = [p, q]"
    by (metis length_0_conv length_Suc_conv numeral_2_eq_2)
  with m show ?thesis by (auto simp: add_eq_conv_ex)
qed

lemma mset_three:
  "mset xs = {#x, y, z#} \<Longrightarrow>
   xs = [x, y, z] \<or> xs = [x, z, y] \<or> xs = [y, x, z] \<or> xs = [y, z, x] \<or> xs = [z, x, y] \<or> xs = [z, y, x]"
proof -
  assume m: "mset xs = {#x, y, z#}"
  then have "length xs = 3" by (metis size_mset size_add_mset size_empty numeral_3_eq_3)
  then obtain p q r where xs: "xs = [p, q, r]"
    by (metis length_0_conv length_Suc_conv numeral_3_eq_3)
  with m show ?thesis by (auto simp: add_eq_conv_ex)
qed

lemma chain_any_order:
  assumes d: "distinct [a, b, c]"
    and ns: "mset ns = {#\<lparr>n_id = a, n_label = la\<rparr>, \<lparr>n_id = b, n_label = lb\<rparr>, \<lparr>n_id = c, n_label = lc\<rparr>#}"
    and es: "mset es = {#\<lparr>e_from = a, e_to = b\<rparr>, \<lparr>e_from = b, e_to = c\<rparr>#}"
  shows "\<exists>h r. convertToHierarchy \<lparr>nodes = ns, edges = es\<rparr> = Inr (h, Some r)
           \<and> unfold_tree (Suc (Suc (Suc k))) h r = Some (HNode la [HNode lb [HNode lc []]])"
proof -
  from d have ne: "a \<noteq> b" "b \<noteq> a" "a \<noteq> c" "c \<noteq> a" "b \<noteq> c" "c \<noteq> b" by auto
  show ?thesis
    using mset_three[OF ns] mset_two[OF es]
    by (elim disjE) (simp_all add: ne convertToHierarchy_def build_store_def register_node_def rootNode_def targets_def
      link_edge_def get_property_def truthy_def)
qed

text \<open>
  Claim C2.  For a graph with a single node and no edges the result is one object with
  that node's label and no children.  For three nodes with distinct ids and the edges
  A\<rightarrow>B and B\<rightarrow>C the result is the object of A, whose only child is the object of B, whose
  only child is the object of C, which has no children: the store is given for the
  declaration order A, B, C, and read as a tree the result is A[B[C]] in whatever order
  the three nodes and the two edges are declared.
\<close>

theorem single_node_and_chain:
  "convertToHierarchy \<lparr>nodes = [\<lparr>n_id = i, n_label = l\<rparr>], edges = []\<rparr>
     = Inr ([\<lparr>h_name = l, h_children = []\<rparr>], Some (HObject 0))
   \<and> unfold_tree (Suc k) [\<lparr>h_name = l, h_children = []\<rparr>] (HObject 0) = Some (HNode l [])
   \<and> (distinct [a, b, c] \<longrightarrow>
        convertToHierarchy
          \<lparr>nodes = [\<lparr>n_id = a, n_label = la\<rparr>, \<lparr>n_id = b, n_label = lb\<rparr>, \<lparr>n_id = c, n_label = lc\<rparr>],
           edges = [\<lparr>e_from = a, e_to = b\<rparr>, \<lparr>e_from = b, e_to = c\<rparr>]\<rparr>
          = Inr ([\<lparr>h_name = la, h_children = [HObject 1]\<rparr>, \<lparr>h_name = lb, h_children = [HObject 2]\<rparr>,
                  \<lparr>h_name = lc, h_children = []\<rparr>], Some (HObject 0)))
   \<and> (distinct [a, b, c]
        \<and> mset ns = {#\<lparr>n_id = a, n_label = la\<rparr>, \<lparr>n_id = b, n_label = lb\<rparr>, \<lparr>n_id = c, n_label = lc\<rparr>#}
        \<and> mset es = {#\<lparr>e_from = a, e_to = b\<rparr>, \<lparr>e_from = b, e_to = c\<rparr>#} \<longrightarrow>
        (\<exists>h r. convertToHierarchy \<lparr>nodes = ns, edges = es\<rparr> = Inr (h, Some r)
           \<and> unfold_tree (Suc (Suc (Suc k))) h r = Some (HNode la [HNode lb [HNode lc []]])))"
proof (intro conjI impI)
  show "convertToHierarchy \<lparr>nodes = [\<lparr>n_id = i, n_label = l\<rparr>], edges = []\<rparr>
     = Inr ([\<lparr>h_name = l, h_children = []\<rparr>], Some (HObject 0))"
    by (simp add: convertToHierarchy_def build_store_def register_node_def rootNode_def targets_def
        get_property_def)
  show "unfold_tree (Suc k) [\<lparr>h_name = l, h_children = []\<rparr>] (HObject 0) = Some (HNode l [])" by simp
next
  assume "distinct [a, b, c]"
  then show "convertToHierarchy
          \<lparr>nodes = [\<lparr>n_id = a, n_label = la\<rparr>, \<lparr>n_id = b, n_label = lb\<rparr>, \<lparr>n_id = c, n_label = lc\<rparr>],
           edges = [\<lparr>e_from = a, e_to = b\<rparr>, \<lparr>e_from = b, e_to = c\<rparr>]\<rparr>
          = Inr ([\<lparr>h_name = la, h_children = [HObject 1]\<rparr>, \<lparr>h_name = lb, h_children = [HObject 2]\<rparr>,
                  \<lparr>h_name = lc, h_children = []\<rparr>], Some (HObject 0))"
    by (simp add: convertToHierarchy_def build_store_def register_node_def rootNode_def targets_def
        link_edge_def get_property_def truthy_def)
next
  assume "distinct [a, b, c]
        \<and> mset ns = {#\<lparr>n_id = a, n_label = la\<rparr>, \<lparr>n_id = b, n_label = lb\<rparr>, \<lparr>n_id = c, n_label = lc\<rparr>#}
        \<and> mset es = {#\<lparr>e_from = a, e_to = b\<rparr>, \<lparr>e_from = b, e_to = c\<rparr>#}"
  then show "\<exists>h r. convertToHierarchy \<lparr>nodes = ns, edges = es\<rparr> = Inr (h, Some r)
           \<and> unfold_tree (Suc (Suc (Suc k))) h r = Some (HNode la [HNode lb [HNode lc []]])"
    using chain_any_order by blast
qed

theorem single_node_and_chain_witness:
  "distinct [''A'', ''B'', ''C'']
   \<and> convertToHierarchy
       \<lparr>nodes = [\<lparr>n_id = ''C'', n_label = ''Gamma''\<rparr>, \<lparr>n_id = ''A'', n_label = ''Alpha''\<rparr>,
                  \<lparr>n_id = ''B'', n_label = ''Beta''\<rparr>],
        edges = [\<lparr>e_from = ''B'', e_to = ''C''\<rparr>, \<lparr>e_from = ''A'', e_to = ''B''\<rparr>]\<rparr>
     = Inr ([\<lparr>h_name = ''Gamma'', h_children = []\<rparr>, \<lparr>h_name = ''Alpha'', h_children = [HObject 2]\<rparr>,
             \<lparr>h_name = ''Beta'', h_children = [HObject 0]\<rparr>], Some (HObject 1))
   \<and> unfold_tree 3
       [\<lparr>h_name = ''Gamma'', h_children = []\<rparr>, \<lparr>h_name = ''Alpha'', h_children = [HObject 2]\<rparr>,
        \<lparr>h_name = ''Beta'', h_children = [HObject 0]\<rparr>] (HObject 1)
     = Some (HNode ''Alpha'' [HNode ''Beta'' [HNode ''Gamma'' []]])"
proof -
  let ?ns = "[\<lparr>n_id = ''C'', n_label = ''Gamma''\<rparr>, \<lparr>n_id = ''A'', n_label = ''Alpha''\<rparr>,
                  \<lparr>n_id = ''B'', n_label = ''Beta''\<rparr>]"
  let ?es = "[\<lparr>e_from = ''B'', e_to = ''C''\<rparr>, \<lparr>e_from = ''A'', e_to = ''B''\<rparr>]"
  let ?h = "[\<lparr>h_name = ''Gamma'', h_children = []\<rparr>, \<lparr>h_name = ''Alpha'', h_children = [HObject 2]\<rparr>,
             \<lparr>h_name = ''Beta'', h_children = [HObject 0]\<rparr>]"
  have d: "distinct [''A'', ''B'', ''C'']" by simp
  have ns: "mset ?ns = {#\<lparr>n_id = ''A'', n_label = ''Alpha''\<rparr>, \<lparr>n_id = ''B'', n_label = ''Beta''\<rparr>,
                         \<lparr>n_id = ''C'', n_label = ''Gamma''\<rparr>#}" by simp
  have es: "mset ?es = {#\<lparr>e_from = ''A'', e_to = ''B''\<rparr>, \<lparr>e_from = ''B'', e_to = ''C''\<rparr>#}" by simp
  have v: "convertToHierarchy \<lparr>nodes = ?ns, edges = ?es\<rparr> = Inr (?h, Some (HObject 1))"
    by (simp add: convertToHierarchy_def build_store_def register_node_def rootNode_def targets_def
        link_edge_def get_property_def truthy_def)
  from single_node_and_chain[where a = "''A''" and b = "''B''" and c = "''C''" and ns = ?ns and es = ?es
      and la = "''Alpha''" and lb = "''Beta''" and lc = "''Gamma''" and k = 0] d ns es
  obtain h r where hr: "convertToHierarchy \<lparr>nodes = ?ns, edges = ?es\<rparr> = Inr (h, Some r)"
    "unfold_tree (Suc (Suc (Suc 0))) h r = Some (HNode ''Alpha'' [HNode ''Beta'' [HNode ''Gamma'' []]])"
    by blast
  from hr(1) v have "h = ?h" "r = HObject 1" by simp_all
  with hr(2) have "unfold_tree 3 ?h (HObject 1) = Some (HNode ''Alpha'' [HNode ''Beta'' [HNode ''Gamma'' []]])"
    by (simp add: numeral_3_eq_3)
  with d v show ?thesis by blast
qed

text \<open>
  Claim C7, as stated, fails: an edge whose source is not declared is skipped when the
  children are linked, yet its target still counts as a target when the root is chosen.
  With the nodes A, B and the single edge X\<rightarrow>A the result is the object of B; from the
  well-formed edges alone (none) it is the object of A.
\<close>

theorem dangling_edge_counterexample:
  "\<not> known_ends
       \<lparr>nodes = [\<lparr>n_id = ''A'', n_label = ''a''\<rparr>, \<lparr>n_id = ''B'', n_label = ''b''\<rparr>],
        edges = [\<lparr>e_from = ''X'', e_to = ''A''\<rparr>]\<rparr>
       \<lparr>e_from = ''X'', e_to = ''A''\<rparr>
   \<and> convertToHierarchy
       \<lparr>nodes = [\<lparr>n_id = ''A'', n_label = ''a''\<rparr>, \<lparr>n_id = ''B'', n_label = ''b''\<rparr>],
        edges = [\<lparr>e_from = ''X'', e_to = ''A''\<rparr>]\<rparr>
     = Inr ([\<lparr>h_name = ''a'', h_children = []\<rparr>, \<lparr>h_name = ''b'', h_children = []\<rparr>],
            Some (HObject 1))
   \<and> convertToHierarchy
       \<lparr>nodes = [\<lparr>n_id = ''A'', n_label = ''a''\<rparr>, \<lparr>n_id = ''B'', n_label = ''b''\<rparr>],
        edges = filter (known_ends
           \<lparr>nodes = [\<lparr>n_id = ''A'', n_label = ''a''\<rparr>, \<lparr>n_id = ''B'', n_label = ''b''\<rparr>],
            edges = [\<lparr>e_from = ''X'', e_to = ''A''\<rparr>]\<rparr>) [\<lparr>e_from = ''X'', e_to = ''A''\<rparr>]\<rparr>
     = Inr ([\<lparr>h_name = ''a'', h_children = []\<rparr>, \<lparr>h_name = ''b'', h_children = []\<rparr>],
            Some (HObject 0))"
  by (simp add: convertToHierarchy_def build_store_def register_node_def rootNode_def targets_def
      link_edge_def known_ends_def declared_def get_property_def truthy_def
      object_prototype_members_def)

text \<open>
  Nor is every edge with an undeclared end skipped: a name that the dictionary inherits
  from \<^verbatim>\<open>Object.prototype\<close> is found by the lookups of line 38.  As a target it becomes a
  child; as a source it makes line 39 throw (\<open>inherited_source_throws\<close>).
\<close>

lemma inherited_target_is_linked:
  "convertToHierarchy
     \<lparr>nodes = [\<lparr>n_id = ''a'', n_label = ''A''\<rparr>], edges = [\<lparr>e_from = ''a'', e_to = ''constructor''\<rparr>]\<rparr>
     = Inr ([\<lparr>h_name = ''A'', h_children = [ProtoMember ''constructor'']\<rparr>], Some (HObject 0))"
  by (simp add: convertToHierarchy_def build_store_def register_node_def get_property_def
      link_edge_def truthy_def object_prototype_members_def rootNode_def targets_def)

text \<open>
  Claim C7, amended.  Take a graph whose edges have plain ends: each end is a declared
  id or a name that the dictionary does not inherit.  Then an edge with an undeclared end
  contributes no child relationship and raises no error: the store of hierarchy objects
  is built without an exception and is the one built from the well-formed edges alone,
  the call throws exactly when the node list is empty, and it returns the same store as
  for the well-formed edges alone.  The whole result equals the one for the well-formed
  edges alone whenever no edge leads from an undeclared id to a declared node.
\<close>

theorem dangling_edges:
  assumes p: "plain_ends g"
  shows "build_store (g\<lparr>edges := filter (known_ends g) (edges g)\<rparr>) = build_store g
   \<and> (\<exists>h nodesById. build_store g = Inr (h, nodesById))
   \<and> (\<forall>h r. convertToHierarchy g = Inr (h, r) \<longrightarrow>
         (\<exists>r'. convertToHierarchy (g\<lparr>edges := filter (known_ends g) (edges g)\<rparr>) = Inr (h, r')))
   \<and> ((convertToHierarchy g = Inl TypeError) = (nodes g = []))
   \<and> ((\<forall>e\<in>set (edges g). declared g (e_to e) \<longrightarrow> declared g (e_from e)) \<longrightarrow>
         convertToHierarchy (g\<lparr>edges := filter (known_ends g) (edges g)\<rparr>) = convertToHierarchy g)"
proof (intro conjI allI impI)
  let ?g' = "g\<lparr>edges := filter (known_ends g) (edges g)\<rparr>"
  note same = build_store_known_ends[OF p]
  from build_store_plain[OF p] obtain h0 m0 where b: "build_store g = Inr (h0, m0)" by blast
  show "build_store ?g' = build_store g" by (rule same)
  show "\<exists>h nodesById. build_store g = Inr (h, nodesById)" using b by blast
  show "(convertToHierarchy g = Inl TypeError) = (nodes g = [])"
    using b by (cases "nodes g") (auto simp: convertToHierarchy_def rootNode_def split: option.splits)
  have nroot: "(rootNode ?g' = None) = (rootNode g = None)"
    by (cases "nodes g") (auto simp: rootNode_def split: option.splits)
  { fix h r assume "convertToHierarchy g = Inr (h, r)"
    then show "\<exists>r'. convertToHierarchy ?g' = Inr (h, r')"
      using nroot b by (auto simp: convertToHierarchy_def same split: option.splits) }
  assume c: "\<forall>e\<in>set (edges g). declared g (e_to e) \<longrightarrow> declared g (e_from e)"
  have "rootNode ?g' = rootNode g"
  proof (rule rootNode_cong)
    show "nodes ?g' = nodes g" by simp
    fix n assume "n \<in> set (nodes g)"
    then have d: "declared g (n_id n)" by (simp add: declared_def)
    show "(n_id n \<in> targets ?g') = (n_id n \<in> targets g)"
      using c d by (auto simp: targets_def known_ends_def)
  qed
  then show "convertToHierarchy ?g' = convertToHierarchy g"
    using b by (simp add: convertToHierarchy_def same)
qed

theorem dangling_edges_witness:
  "plain_ends \<lparr>nodes = [\<lparr>n_id = ''A'', n_label = ''a''\<rparr>, \<lparr>n_id = ''B'', n_label = ''b''\<rparr>],
      edges = [\<lparr>e_from = ''A'', e_to = ''X''\<rparr>, \<lparr>e_from = ''A'', e_to = ''B''\<rparr>, \<lparr>e_from = ''Y'', e_to = ''Z''\<rparr>]\<rparr>
   \<and> list_all (\<lambda>e.
        declared \<lparr>nodes = [\<lparr>n_id = ''A'', n_label = ''a''\<rparr>, \<lparr>n_id = ''B'', n_label = ''b''\<rparr>],
      edges = [\<lparr>e_from = ''A'', e_to = ''X''\<rparr>, \<lparr>e_from = ''A'', e_to = ''B''\<rparr>, \<lparr>e_from = ''Y'', e_to = ''Z''\<rparr>]\<rparr> (e_to e) \<longrightarrow>
        declared \<lparr>nodes = [\<lparr>n_id = ''A'', n_label = ''a''\<rparr>, \<lparr>n_id = ''B'', n_label = ''b''\<rparr>],
      edges = [\<lparr>e_from = ''A'', e_to = ''X''\<rparr>, \<lparr>e_from = ''A'', e_to = ''B''\<rparr>, \<lparr>e_from = ''Y'', e_to = ''Z''\<rparr>]\<rparr> (e_from e))
     (edges \<lparr>nodes = [\<lparr>n_id = ''A'', n_label = ''a''\<rparr>, \<lparr>n_id = ''B'', n_label = ''b''\<rparr>],
      edges = [\<lparr>e_from = ''A'', e_to = ''X''\<rparr>, \<lparr>e_from = ''A'', e_to = ''B''\<rparr>, \<lparr>e_from = ''Y'', e_to = ''Z''\<rparr>]\<rparr>)
   \<and> convertToHierarchy \<lparr>nodes = [\<lparr>n_id = ''A'', n_label = ''a''\<rparr>, \<lparr>n_id = ''B'', n_label = ''b''\<rparr>],
      edges = [\<lparr>e_from = ''A'', e_to = ''X''\<rparr>, \<lparr>e_from = ''A'', e_to = ''B''\<rparr>, \<lparr>e_from = ''Y'', e_to = ''Z''\<rparr>]\<rparr>
     = convertToHierarchy \<lparr>nodes = [\<lparr>n_id = ''A'', n_label = ''a''\<rparr>, \<lparr>n_id = ''B'', n_label = ''b''\<rparr>],
      edges = [\<lparr>e_from = ''A'', e_to = ''B''\<rparr>]\<rparr>
   \<and> convertToHierarchy \<lparr>nodes = [\<lparr>n_id = ''A'', n_label = ''a''\<rparr>, \<lparr>n_id = ''B'', n_label = ''b''\<rparr>],
      edges = [\<lparr>e_from = ''A'', e_to = ''X''\<rparr>, \<lparr>e_from = ''A'', e_to = ''B''\<rparr>, \<lparr>e_from = ''Y'', e_to = ''Z''\<rparr>]\<rparr>
     = Inr ([\<lparr>h_name = ''a'', h_children = [HObject 1]\<rparr>, \<lparr>h_name = ''b'', h_children = []\<rparr>],
            Some (HObject 0))"
proof -
  let ?g = "\<lparr>nodes = [\<lparr>n_id = ''A'', n_label = ''a''\<rparr>, \<lparr>n_id = ''B'', n_label = ''b''\<rparr>],
      edges = [\<lparr>e_from = ''A'', e_to = ''X''\<rparr>, \<lparr>e_from = ''A'', e_to = ''B''\<rparr>, \<lparr>e_from = ''Y'', e_to = ''Z''\<rparr>]\<rparr>"
  have p: "plain_ends ?g"
    by (simp add: plain_ends_def declared_def inherited_def object_prototype_members_def)
  have c: "\<forall>e\<in>set (edges ?g). declared ?g (e_to e) \<longrightarrow> declared ?g (e_from e)"
    by (simp add: declared_def)
  have f: "?g\<lparr>edges := filter (known_ends ?g) (edges ?g)\<rparr>
     = \<lparr>nodes = [\<lparr>n_id = ''A'', n_label = ''a''\<rparr>, \<lparr>n_id = ''B'', n_label = ''b''\<rparr>],
      edges = [\<lparr>e_from = ''A'', e_to = ''B''\<rparr>]\<rparr>"
    by (simp add: known_ends_def declared_def)
  from dangling_edges[OF p] c
  have "convertToHierarchy (?g\<lparr>edges := filter (known_ends ?g) (edges ?g)\<rparr>) = convertToHierarchy ?g"
    by blast
  then have e: "convertToHierarchy ?g = convertToHierarchy \<lparr>nodes = [\<lparr>n_id = ''A'', n_label = ''a''\<rparr>, \<lparr>n_id = ''B'', n_label = ''b''\<rparr>],
      edges = [\<lparr>e_from = ''A'', e_to = ''B''\<rparr>]\<rparr>" unfolding f by simp
  have v: "convertToHierarchy \<lparr>nodes = [\<lparr>n_id = ''A'', n_label = ''a''\<rparr>, \<lparr>n_id = ''B'', n_label = ''b''\<rparr>],
      edges = [\<lparr>e_from = ''A'', e_to = ''B''\<rparr>]\<rparr> = Inr ([\<lparr>h_name = ''a'', h_children = [HObject 1]\<rparr>, \<lparr>h_name = ''b'', h_children = []\<rparr>], Some (HObject 0))"
    by (simp add: convertToHierarchy_def build_store_def register_node_def rootNode_def targets_def
      link_edge_def get_property_def truthy_def)
  from p c e v show ?thesis by (simp add: list_all_iff)
qed

subsection \<open>Renderer\<close>

lemma descendants_root: "\<exists>rest. descendants r = ([], r) # rest"
  unfolding descendants_def by (subst each_level.simps) simp

lemma collapse_below_root_id: "r_id (collapse_below_root r) = r_id r"
  by (cases r) (simp add: collapse_below_root_def split: option.splits)

lemma hierarchy_id: "r_id (hierarchy t) = None"
  by (cases t) simp

lemma update_unbound:
  "r_id r = None \<Longrightarrow> update src (r, None, elems) = Inl ReferenceError"
proof -
  assume n: "r_id r = None"
  obtain rest where d: "descendants r = ([], r) # rest" using descendants_root by blast
  show ?thesis by (simp add: update_def d node_key_def n)
qed

text \<open>
  Claim C5 does not hold of the code.  The key function of the node join evaluates
  \<^verbatim>\<open>++i\<close> for every node without an id, and script.js declares no \<^verbatim>\<open>i\<close>.  On a page
  where no other script declares it, rendering any hierarchy throws a ReferenceError at
  the first node, before a single node element is appended: no node is drawn and no id
  is assigned.
\<close>

theorem render_throws_reference_error:
  "renderMindmap parse fuel (Object (Hierarchy t)) (script_page True) = Some (Inl ReferenceError)"
  by (simp add: renderMindmap_def script_page_def update_unbound collapse_below_root_id hierarchy_id)

text \<open>The same holds for a graph payload whose hierarchy the traversal reads off in full.\<close>

lemma render_graph_throws_reference_error:
  "convertToHierarchy g = Inr (h, Some v) \<Longrightarrow> unfold_tree fuel h v = Some t \<Longrightarrow>
   renderMindmap parse fuel (Object (Graph g)) (script_page True) = Some (Inl ReferenceError)"
  by (simp add: renderMindmap_def script_page_def update_unbound collapse_below_root_id hierarchy_id)

text \<open>
  What the key function is written for does hold once \<^verbatim>\<open>i\<close> is bound to a number: an id
  that was assigned is reused as it is, and \<open>update\<close> returns.
\<close>

lemma node_key_reuses_id:
  "r_id d = Some k \<Longrightarrow> k \<noteq> 0 \<Longrightarrow> node_key i d = Inr (k, d, i)"
  by (simp add: node_key_def)

lemma node_keys_bound:
  "\<exists>ks r' c'. node_keys (Some c) ps r = Inr (ks, r', Some c')"
proof (induction ps arbitrary: c r)
  case Nil
  then show ?case by simp
next
  case (Cons p ps)
  show ?case
  proof (cases "node_at r p")
    case None
    then show ?thesis using Cons.IH[of c r] by simp
  next
    case (Some d)
    have "\<exists>k d' c'. node_key (Some c) d = Inr (k, d', Some c')"
      by (simp add: node_key_def split: option.splits)
    then obtain k d' c' where nk: "node_key (Some c) d = Inr (k, d', Some c')" by blast
    from Cons.IH[of c' "modify_at (\<lambda>_. d') p r"] obtain ks r' c'' where
      "node_keys (Some c') ps (modify_at (\<lambda>_. d') p r) = Inr (ks, r', Some c'')" by blast
    then show ?thesis using Some nk by simp
  qed
qed

lemma update_bound:
  "\<exists>r' c' elems'. update src (r, Some c, elems) = Inr (r', Some c', elems')"
proof -
  obtain ks r' c' where "node_keys (Some c) (map fst (descendants r)) r = Inr (ks, r', Some c')"
    using node_keys_bound by blast
  then show ?thesis by (simp add: update_def split: prod.splits)
qed

text \<open>
  Claim C10.  When the payload, given as an object or as a string that parses to it, is
  a graph whose node list is empty, \<open>renderMindmap\<close> ends with the TypeError that
  \<open>convertToHierarchy\<close> throws: line 150 lies outside the try block of lines 142--147,
  so the exception reaches the caller.
\<close>

theorem empty_nodes_throw:
  "nodes g = [] \<longrightarrow>
     renderMindmap parse fuel (Object (Graph g)) pg = Some (Inl TypeError)
     \<and> (s \<noteq> [] \<and> parse s = Some (Graph g) \<longrightarrow>
          renderMindmap parse fuel (Serialized s) pg = Some (Inl TypeError))"
  by (simp add: renderMindmap_def convert_empty)

theorem empty_nodes_throw_witness:
  "nodes \<lparr>nodes = [], edges = []\<rparr> = []
   \<and> ''{\"nodes\":[],\"edges\":[]}'' \<noteq> []
   \<and> (\<lambda>s. if s = ''{\"nodes\":[],\"edges\":[]}'' then Some (Graph \<lparr>nodes = [], edges = []\<rparr>) else None)
        ''{\"nodes\":[],\"edges\":[]}'' = Some (Graph \<lparr>nodes = [], edges = []\<rparr>)
   \<and> renderMindmap
        (\<lambda>s. if s = ''{\"nodes\":[],\"edges\":[]}'' then Some (Graph \<lparr>nodes = [], edges = []\<rparr>) else None) 0
        (Serialized ''{\"nodes\":[],\"edges\":[]}'') (script_page True) = Some (Inl TypeError)
   \<and> renderMindmap (\<lambda>s. None) 0
        (Object (Graph \<lparr>nodes = [], edges = []\<rparr>)) (script_page True) = Some (Inl TypeError)"
  using empty_nodes_throw[of "\<lparr>nodes = [], edges = []\<rparr>"
      "\<lambda>s. if s = ''{\"nodes\":[],\"edges\":[]}'' then Some (Graph \<lparr>nodes = [], edges = []\<rparr>) else None"
      0 "script_page True" "''{\"nodes\":[],\"edges\":[]}''"]
    empty_nodes_throw[of "\<lparr>nodes = [], edges = []\<rparr>" "\<lambda>s. None" 0 "script_page True" "[]"]
  by simp

text \<open>
  Claim C6.  For an absent (falsy) argument \<open>renderMindmap\<close> returns with the page
  unchanged.  For a string that \<^verbatim>\<open>JSON.parse\<close> rejects it returns normally, the only
  change to the page being the message printed by \<^verbatim>\<open>console.error\<close>.
\<close>

theorem absent_or_unparsable:
  "renderMindmap parse fuel Absent pg = Some (Inr pg)
   \<and> renderMindmap parse fuel (Serialized []) pg = Some (Inr pg)
   \<and> (s \<noteq> [] \<and> parse s = None \<longrightarrow>
        renderMindmap parse fuel (Serialized s) pg
          = Some (Inr (pg\<lparr>console := console pg @ [''Invalid mindmap JSON'']\<rparr>)))"
  by (simp add: renderMindmap_def)

theorem absent_or_unparsable_witness:
  "''{nodes'' \<noteq> [] \<and> (\<lambda>s. None :: payload option) ''{nodes'' = None
   \<and> renderMindmap (\<lambda>s. None) 0 (Serialized ''{nodes'') (script_page True)
       = Some (Inr \<lparr>console = [''Invalid mindmap JSON''], has_container = True, global_i = None,
                    drawing = None\<rparr>)"
  using absent_or_unparsable[of "\<lambda>s. None" 0 "script_page True" "''{nodes''"]
  by (simp add: script_page_def)

lemma children_collapse: "children (collapse n) = None"
  by (cases n) (simp split: option.splits)

lemma name_collapse: "r_name (collapse n) = r_name n"
  by (cases n) (simp split: option.splits)

lemma name_hierarchy: "r_name (hierarchy t) = t_name t"
  by (cases t) simp

lemma each_level_leaves:
  "list_all (\<lambda>pn. children (snd pn) = None) ns \<Longrightarrow> each_level ns = ns"
proof -
  assume a: "list_all (\<lambda>pn. children (snd pn) = None) ns"
  then have "concat (map visible_children ns) = []"
    by (induction ns) (auto simp: visible_children_def)
  then show ?thesis by (subst each_level.simps, subst each_level.simps) simp
qed

lemma map_enumerate_pos:
  "map fst (map (\<lambda>(i, c). ([i], c)) (enumerate k cs)) = map (\<lambda>i. [i]) [k..<k + length cs]"
  by (induction cs arbitrary: k) (simp_all add: upt_rec)

lemma map_enumerate_snd:
  "map snd (map (\<lambda>(i, c). (p @ [i], c)) (enumerate k cs)) = cs"
  by (induction cs arbitrary: k) simp_all

lemma data_of_hierarchy: "data_of (hierarchy t) = t"
proof (induction t)
  case (HNode nm cs)
  have "map data_of (map hierarchy cs) = cs" using HNode.IH by (simp add: map_idI)
  then show ?case by (cases "cs = []") simp_all
qed

lemma data_of_collapse_hierarchy: "data_of (collapse (hierarchy t)) = t"
proof (induction t)
  case (HNode nm cs)
  have "map data_of (map collapse (map hierarchy cs)) = cs" using HNode.IH by (simp add: map_idI)
  then show ?case by (cases "cs = []") simp_all
qed

lemma collapsed_collapse_hierarchy:
  "list_all collapsed (subnodes (collapse (hierarchy t)))"
proof (induction t)
  case (HNode nm cs)
  show ?case
  proof (cases "cs = []")
    case True
    then show ?thesis by (simp add: collapsed_def kids_def)
  next
    case False
    have rest: "list_all collapsed (concat (map subnodes (map collapse (map hierarchy cs))))"
      using HNode.IH by (simp add: list_all_iff)
    have head: "collapsed (RNode nm None (Some (map collapse (map hierarchy cs))) None)"
      using False by (simp add: collapsed_def kids_def)
    from False head rest show ?thesis by simp
  qed
qed

text \<open>
  Claim C3.  On the initial render (lines 170--177) the node list that \<open>update\<close>
  computes from the collapsed tree consists of the root followed by its immediate
  children, by name and by position, for every hierarchy, so no grandchild of the root
  is among the visible nodes.  Every node object below the root, at any depth, is in
  the collapsed state: its visible slot is empty and its children, if it has any, are in
  the hidden slot.  Nothing is discarded: read through whichever slot holds the
  children, the tree is the hierarchy that was rendered.
\<close>

theorem initial_render_visible:
  "map (\<lambda>pn. r_name (snd pn)) (descendants (collapse_below_root (hierarchy t)))
     = t_name t # map t_name (t_children t)
   \<and> map snd (descendants (collapse_below_root (hierarchy t)))
     = collapse_below_root (hierarchy t) # kids (collapse_below_root (hierarchy t))
   \<and> map fst (descendants (collapse_below_root (hierarchy t)))
     = [] # map (\<lambda>i. [i]) [0..<length (t_children t)]
   \<and> list_all (\<lambda>c. list_all collapsed (subnodes c))
        (kids (collapse_below_root (hierarchy t)))
   \<and> data_of (collapse_below_root (hierarchy t)) = t"
proof (cases t)
  case (HNode nm cs)
  let ?r = "collapse_below_root (hierarchy t)"
  show ?thesis
  proof (cases "cs = []")
    case True
    then have r: "?r = RNode nm None None None" using HNode by (simp add: collapse_below_root_def)
    have "descendants ?r = [([], ?r)]"
      unfolding descendants_def by (rule each_level_leaves) (simp add: r)
    then show ?thesis using HNode True by (simp add: collapse_below_root_def kids_def)
  next
    case False
    let ?cs = "map collapse (map hierarchy cs)"
    let ?L = "map (\<lambda>(i, c). ([] @ [i], c)) (enumerate 0 ?cs)"
    from False have r: "?r = RNode nm (Some ?cs) None None"
      using HNode by (simp add: collapse_below_root_def)
    have k: "kids ?r = ?cs" by (simp add: r kids_def)
    have snd_L: "map snd ?L = ?cs" by (rule map_enumerate_snd)
    have leaves: "list_all (\<lambda>pn. children (snd pn) = None) ?L"
    proof -
      have "list_all (\<lambda>n. children n = None) (map snd ?L)"
        unfolding snd_L by (simp add: list_all_iff children_collapse)
      then show ?thesis by (simp add: list_all_iff)
    qed
    have vc: "visible_children ([], ?r) = ?L" by (simp add: visible_children_def r)
    have "descendants ?r = ([], ?r) # each_level ?L"
      unfolding descendants_def by (subst each_level.simps) (simp add: vc)
    then have d: "descendants ?r = ([], ?r) # ?L" using each_level_leaves[OF leaves] by simp
    have 1: "map snd (descendants ?r) = ?r # kids ?r" unfolding d k using snd_L by simp
    have 2: "map (\<lambda>pn. r_name (snd pn)) (descendants ?r) = t_name t # map t_name (t_children t)"
    proof -
      have "map (\<lambda>pn. r_name (snd pn)) (descendants ?r) = map r_name (map snd (descendants ?r))"
        by (simp add: comp_def)
      also have "\<dots> = r_name ?r # map r_name ?cs" unfolding 1 k by simp
      also have "\<dots> = nm # map t_name cs"
        by (simp add: r name_collapse name_hierarchy comp_def)
      also have "\<dots> = t_name t # map t_name (t_children t)"
        using HNode by simp
      finally show ?thesis .
    qed
    have 3: "map fst (descendants ?r) = [] # map (\<lambda>i. [i]) [0..<length (t_children t)]"
      unfolding d using map_enumerate_pos[of 0 ?cs] HNode by simp
    have 4: "list_all (\<lambda>c. list_all collapsed (subnodes c)) (kids ?r)"
      unfolding k by (simp add: list_all_iff collapsed_collapse_hierarchy[unfolded list_all_iff])
    have "map data_of ?cs = cs" by (simp add: data_of_collapse_hierarchy map_idI)
    then have 5: "data_of ?r = t" unfolding r using HNode by simp
    from 1 2 3 4 5 show ?thesis by blast
  qed
qed

theorem initial_render_visible_witness:
  "map (\<lambda>pn. r_name (snd pn))
     (descendants (collapse_below_root (hierarchy
        (HNode ''A'' [HNode ''B'' [HNode ''D'' [], HNode ''E'' [HNode ''F'' []]], HNode ''C'' []]))))
     = [''A'', ''B'', ''C'']
   \<and> map fst
     (descendants (collapse_below_root (hierarchy
        (HNode ''A'' [HNode ''B'' [HNode ''D'' [], HNode ''E'' [HNode ''F'' []]], HNode ''C'' []]))))
     = [[], [0], [1]]
   \<and> collapse_below_root (hierarchy
        (HNode ''A'' [HNode ''B'' [HNode ''D'' [], HNode ''E'' [HNode ''F'' []]], HNode ''C'' []]))
     = RNode ''A''
         (Some [RNode ''B'' None
                  (Some [RNode ''D'' None None None,
                         RNode ''E'' None (Some [RNode ''F'' None None None]) None]) None,
                RNode ''C'' None None None])
         None None
   \<and> data_of (RNode ''A''
         (Some [RNode ''B'' None
                  (Some [RNode ''D'' None None None,
                         RNode ''E'' None (Some [RNode ''F'' None None None]) None]) None,
                RNode ''C'' None None None])
         None None)
     = HNode ''A'' [HNode ''B'' [HNode ''D'' [], HNode ''E'' [HNode ''F'' []]], HNode ''C'' []]"
  using initial_render_visible
    [of "HNode ''A'' [HNode ''B'' [HNode ''D'' [], HNode ''E'' [HNode ''F'' []]], HNode ''C'' []]"]
  by (simp add: upt_rec collapse_below_root_def)

lemma rnode_eta: "RNode (r_name n) (children n) (hidden n) (r_id n) = n"
  by (cases n) simp

lemma kids_toggle: "kids (toggle d) = kids d"
  by (cases d) (simp add: toggle_def kids_def split: option.splits)

lemma kids_modify_at_Cons:
  "kids (modify_at f (i # p) n) =
     (if i < length (kids n) then (kids n)[i := modify_at f p (kids n ! i)] else kids n)"
  by (cases n) (simp add: kids_def split: option.splits)

lemma slot_state_modify_at_Cons: "slot_state (modify_at f (i # p) n) = slot_state n"
  by (cases n) (simp add: slot_state_def split: option.splits)

lemma node_at_modify_at:
  "node_at (modify_at f p r) p = map_option f (node_at r p)"
proof (induction p arbitrary: r)
  case Nil
  then show ?case by simp
next
  case (Cons i p)
  show ?case
    using Cons.IH[of "kids r ! i"]
    by (simp only: node_at.simps kids_modify_at_Cons) (simp split: if_splits)
qed

lemma node_at_modify_at_other:
  "q \<noteq> p \<Longrightarrow>
   map_option slot_state (node_at (modify_at toggle p r) q) = map_option slot_state (node_at r q)"
proof (induction p arbitrary: q r)
  case Nil
  then obtain j q' where q: "q = j # q'" by (cases q) auto
  show ?case by (simp add: q kids_toggle)
next
  case (Cons i p)
  show ?case
  proof (cases q)
    case Nil
    then show ?thesis by (simp del: modify_at.simps add: slot_state_modify_at_Cons)
  next
    case (Cons j q')
    show ?thesis
    proof (cases "j = i")
      case True
      with Cons Cons.prems have "q' \<noteq> p" by simp
      from Cons.IH[OF this, of "kids r ! i"] show ?thesis
        by (simp only: Cons True node_at.simps kids_modify_at_Cons) (simp split: if_splits)
    next
      case False
      then show ?thesis
        by (simp only: Cons node_at.simps kids_modify_at_Cons) (simp split: if_splits)
    qed
  qed
qed

lemma toggle_toggle:
  "children d = None \<or> hidden d = None \<Longrightarrow> toggle (toggle d) = d"
  by (cases d) (auto simp: toggle_def split: option.splits)

lemma self_subnodes: "n \<in> set (subnodes n)"
  by (cases n) simp

lemma node_at_subnodes: "node_at r p = Some d \<Longrightarrow> d \<in> set (subnodes r)"
proof (induction p arbitrary: r)
  case Nil
  then show ?case by (simp add: self_subnodes)
next
  case (Cons i p)
  then have i: "i < length (kids r)" and d: "node_at (kids r ! i) p = Some d"
    by (simp_all split: if_splits)
  from Cons.IH[OF d] have "d \<in> set (subnodes (kids r ! i))" .
  moreover have "kids r ! i \<in> set (kids r)" using i by simp
  ultimately show ?case
    by (cases r) (auto simp: kids_def split: option.splits)
qed

lemma toggle_twice_at:
  "(\<And>d. node_at r p = Some d \<Longrightarrow> children d = None \<or> hidden d = None) \<Longrightarrow>
   modify_at toggle p (modify_at toggle p r) = r"
proof (induction p arbitrary: r)
  case Nil
  then show ?case by (simp add: toggle_toggle)
next
  case (Cons i p)
  show ?case
  proof (cases "i < length (kids r)")
    case False
    then show ?thesis by (cases r) (simp add: kids_def split: option.splits)
  next
    case True
    have "modify_at toggle p (modify_at toggle p (kids r ! i)) = kids r ! i"
    proof (rule Cons.IH)
      fix d assume "node_at (kids r ! i) p = Some d"
      then have "node_at r (i # p) = Some d" using True by simp
      then show "children d = None \<or> hidden d = None" by (rule Cons.prems)
    qed
    then show ?thesis using True
      by (cases r) (auto simp: kids_def split: option.splits)
  qed
qed

lemma toggle_twice_exclusive:
  "exclusive r \<Longrightarrow> modify_at toggle p (modify_at toggle p r) = r"
  by (rule toggle_twice_at) (auto simp: exclusive_def list_all_iff dest: node_at_subnodes)

lemma strip_ids_sel:
  "children (strip_ids n) = map_option (map strip_ids) (children n)"
  "hidden (strip_ids n) = map_option (map strip_ids) (hidden n)"
  "r_name (strip_ids n) = r_name n"
  "r_id (strip_ids n) = None"
  by (cases n, simp)+

lemma strip_ids_eq_iff:
  "(strip_ids a = strip_ids b) =
     (r_name a = r_name b \<and> map_option (map strip_ids) (children a) = map_option (map strip_ids) (children b)
      \<and> map_option (map strip_ids) (hidden a) = map_option (map strip_ids) (hidden b))"
  by (cases a; cases b) simp

lemma node_key_strip: "node_key i d = Inr (k, d', i') \<Longrightarrow> strip_ids d' = strip_ids d"
  by (cases d) (auto simp: node_key_def split: option.splits if_splits)

lemma strip_ids_replace:
  "node_at r p = Some d \<Longrightarrow> strip_ids d' = strip_ids d \<Longrightarrow>
   strip_ids (modify_at (\<lambda>_. d') p r) = strip_ids r"
proof (induction p arbitrary: r)
  case Nil
  then show ?case by simp
next
  case (Cons i p)
  then have i: "i < length (kids r)" and d: "node_at (kids r ! i) p = Some d"
    by (simp_all split: if_splits)
  have ih: "strip_ids (modify_at (\<lambda>_. d') p (kids r ! i)) = strip_ids (kids r ! i)"
    using Cons.IH[OF d Cons.prems(2)] .
  have upd: "map strip_ids (cs[i := modify_at (\<lambda>_. d') p (cs ! i)]) = map strip_ids cs"
    if "cs = kids r" for cs
    using ih i that by (simp add: map_update list_update_same_conv)
  show ?case using i upd
    by (cases r) (auto simp: kids_def split: option.splits)
qed

lemma node_keys_strip:
  "node_keys i ps r = Inr (ks, r', i') \<Longrightarrow> strip_ids r' = strip_ids r"
proof (induction ps arbitrary: i r ks)
  case Nil
  then show ?case by simp
next
  case (Cons p ps)
  show ?case
  proof (cases "node_at r p")
    case None
    with Cons show ?thesis by simp
  next
    case (Some d)
    with Cons.prems obtain k d' j ks' where
      nk: "node_key i d = Inr (k, d', j)" and
      rest: "node_keys j ps (modify_at (\<lambda>_. d') p r) = Inr (ks', r', i')"
      by (auto split: sum.splits prod.splits)
    from Cons.IH[OF rest] have "strip_ids r' = strip_ids (modify_at (\<lambda>_. d') p r)" .
    also have "\<dots> = strip_ids r" using strip_ids_replace[OF Some node_key_strip[OF nk]] .
    finally show ?thesis .
  qed
qed

lemma update_strip:
  "update src (r, i, elems) = Inr (r', i', elems') \<Longrightarrow> strip_ids r' = strip_ids r"
  by (auto simp: update_def Let_def split: sum.splits prod.splits dest: node_keys_strip)

lemma strip_ids_toggle: "strip_ids (toggle d) = toggle (strip_ids d)"
  by (cases d) (simp add: toggle_def split: option.splits)

lemma strip_ids_modify_toggle:
  "strip_ids (modify_at toggle p r) = modify_at toggle p (strip_ids r)"
proof (induction p arbitrary: r)
  case Nil
  then show ?case by (simp add: strip_ids_toggle)
next
  case (Cons i p)
  show ?case
    by (cases r) (simp add: Cons.IH map_update split: option.splits)
qed

lemma on_click_strip:
  "on_click p (r, i, elems) = Inr (r', i', elems') \<Longrightarrow>
   strip_ids r' = strip_ids (modify_at toggle p r)"
  by (simp add: on_click_def update_strip)

lemma two_clicks_strip:
  assumes "exclusive r"
    and "on_click p (r, i, elems) = Inr (r', i', elems')"
    and "on_click p (r', i', elems') = Inr (r'', i'', elems'')"
  shows "strip_ids r'' = strip_ids r"
proof -
  have "strip_ids r'' = modify_at toggle p (strip_ids r')"
    using on_click_strip[OF assms(3)] by (simp add: strip_ids_modify_toggle)
  also have "\<dots> = modify_at toggle p (modify_at toggle p (strip_ids r))"
    using on_click_strip[OF assms(2)] by (simp add: strip_ids_modify_toggle)
  also have "\<dots> = strip_ids (modify_at toggle p (modify_at toggle p r))"
    by (simp add: strip_ids_modify_toggle)
  also have "\<dots> = strip_ids r" using toggle_twice_exclusive[OF assms(1)] by simp
  finally show ?thesis .
qed

lemma exclusive_RNode:
  "exclusive (RNode nm ch hid k) =
     ((ch = None \<or> hid = None)
      \<and> list_all exclusive (case ch of None \<Rightarrow> [] | Some cs \<Rightarrow> cs)
      \<and> list_all exclusive (case hid of None \<Rightarrow> [] | Some hs \<Rightarrow> hs))"
  by (cases ch; cases hid; simp add: exclusive_def list_all_iff; blast)

lemma exclusive_hierarchy: "exclusive (hierarchy t)"
  by (induction t) (auto simp: exclusive_RNode list_all_iff)

lemma exclusive_collapse: "exclusive n \<Longrightarrow> exclusive (collapse n)"
proof (induction n)
  case (RNode nm ch hid k)
  show ?case
  proof (cases ch)
    case None
    with RNode.prems show ?thesis by simp
  next
    case (Some cs)
    have "list_all exclusive (map collapse cs)"
      using RNode.IH(1) RNode.prems Some by (auto simp: exclusive_RNode list_all_iff)
    with Some show ?thesis by (simp add: exclusive_RNode)
  qed
qed

lemma exclusive_initial: "exclusive (collapse_below_root (hierarchy t))"
proof -
  have "exclusive (collapse_below_root r)" if "exclusive r" for r
    using that
    by (cases r) (auto simp: collapse_below_root_def exclusive_RNode list_all_iff exclusive_collapse
        split: option.splits)
  then show ?thesis by (simp add: exclusive_hierarchy)
qed

lemma exclusive_toggle: "exclusive d \<Longrightarrow> exclusive (toggle d)"
  by (cases d) (auto simp: toggle_def exclusive_RNode split: option.splits)

lemma exclusive_kids: "exclusive r \<Longrightarrow> i < length (kids r) \<Longrightarrow> exclusive (kids r ! i)"
  by (cases r) (auto simp: kids_def exclusive_RNode list_all_length split: option.splits)

lemma exclusive_modify_at:
  "exclusive r \<Longrightarrow> (\<And>d. node_at r p = Some d \<Longrightarrow> exclusive (f d)) \<Longrightarrow> exclusive (modify_at f p r)"
proof (induction p arbitrary: r)
  case Nil
  then show ?case by simp
next
  case (Cons i p)
  show ?case
  proof (cases "i < length (kids r)")
    case False
    then show ?thesis using Cons.prems(1)
      by (cases r) (auto simp: kids_def split: option.splits)
  next
    case True
    have "exclusive (modify_at f p (kids r ! i))"
    proof (rule Cons.IH)
      show "exclusive (kids r ! i)" using Cons.prems(1) True by (rule exclusive_kids)
      fix d assume "node_at (kids r ! i) p = Some d"
      then have "node_at r (i # p) = Some d" using True by simp
      then show "exclusive (f d)" by (rule Cons.prems(2))
    qed
    then show ?thesis using True Cons.prems(1)
      by (cases r) (auto simp: kids_def exclusive_RNode list_all_length nth_list_update
          split: option.splits)
  qed
qed

lemma exclusive_node_at: "exclusive r \<Longrightarrow> node_at r p = Some d \<Longrightarrow> exclusive d"
proof (induction p arbitrary: r)
  case Nil
  then show ?case by simp
next
  case (Cons i p)
  then show ?case by (auto split: if_splits intro: exclusive_kids)
qed

lemma node_key_exclusive: "node_key i d = Inr (k, d', i') \<Longrightarrow> exclusive d \<Longrightarrow> exclusive d'"
  by (cases d) (auto simp: node_key_def exclusive_RNode split: option.splits if_splits)

lemma node_keys_exclusive:
  "node_keys i ps r = Inr (ks, r', i') \<Longrightarrow> exclusive r \<Longrightarrow> exclusive r'"
proof (induction ps arbitrary: i r ks)
  case Nil
  then show ?case by simp
next
  case (Cons p ps)
  show ?case
  proof (cases "node_at r p")
    case None
    with Cons show ?thesis by simp
  next
    case (Some d)
    with Cons.prems obtain k d' j ks' where
      nk: "node_key i d = Inr (k, d', j)" and
      rest: "node_keys j ps (modify_at (\<lambda>_. d') p r) = Inr (ks', r', i')"
      by (auto split: sum.splits prod.splits)
    have "exclusive d'"
      using node_key_exclusive[OF nk] exclusive_node_at[OF Cons.prems(2) Some] .
    then have "exclusive (modify_at (\<lambda>_. d') p r)"
      using Cons.prems(2) by (intro exclusive_modify_at)
    with Cons.IH[OF rest] show ?thesis .
  qed
qed

lemma on_click_exclusive:
  "on_click p (r, i, elems) = Inr (r', i', elems') \<Longrightarrow> exclusive r \<Longrightarrow> exclusive r'"
proof -
  assume c: "on_click p (r, i, elems) = Inr (r', i', elems')" and e: "exclusive r"
  have "exclusive (modify_at toggle p r)"
    using e by (intro exclusive_modify_at) (auto intro: exclusive_toggle exclusive_node_at)
  with c show ?thesis
    by (auto simp: on_click_def update_def Let_def split: sum.splits prod.splits
        dest: node_keys_exclusive)
qed

text \<open>
  Claim C4.  The click handler changes the two slots of the clicked node and of no
  other: an expanded node gets its visible children moved to the hidden slot, a collapsed
  node gets its hidden children back as the visible ones, and the children themselves
  stay as they are; every other node object keeps its slot state.  In a tree where no
  node has both slots filled (which holds after the initial render and after every
  click, lemmas \<open>exclusive_initial\<close> and \<open>on_click_exclusive\<close>) the assignments of two
  clicks on the same node give back the tree.  The \<open>update\<close> that ends the handler
  assigns ids only, so whenever two consecutive clicks on one node return, the slots of
  every node are the ones from before.
\<close>

theorem click_toggles_one_node:
  "(node_at r p = Some d \<longrightarrow>
      node_at (modify_at toggle p r) p = Some (toggle d)
      \<and> kids (toggle d) = kids d
      \<and> (case children d of
            Some cs \<Rightarrow> children (toggle d) = None \<and> hidden (toggle d) = Some cs
          | None \<Rightarrow> children (toggle d) = hidden d \<and> hidden (toggle d) = None))
   \<and> (q \<noteq> p \<longrightarrow>
        map_option slot_state (node_at (modify_at toggle p r) q) = map_option slot_state (node_at r q))
   \<and> (exclusive r \<longrightarrow> modify_at toggle p (modify_at toggle p r) = r)
   \<and> (on_click p (r, i, elems) = Inr (r', i', elems') \<longrightarrow>
        strip_ids r' = strip_ids (modify_at toggle p r))
   \<and> (exclusive r \<and> on_click p (r, i, elems) = Inr (r', i', elems')
        \<and> on_click p (r', i', elems') = Inr (r'', i'', elems'') \<longrightarrow>
        strip_ids r'' = strip_ids r)"
proof (intro conjI impI)
  assume d: "node_at r p = Some d"
  show "node_at (modify_at toggle p r) p = Some (toggle d)" by (simp add: node_at_modify_at d)
  show "kids (toggle d) = kids d" by (rule kids_toggle)
  show "case children d of
            Some cs \<Rightarrow> children (toggle d) = None \<and> hidden (toggle d) = Some cs
          | None \<Rightarrow> children (toggle d) = hidden d \<and> hidden (toggle d) = None"
    by (simp add: toggle_def split: option.splits)
next
  assume "q \<noteq> p"
  then show "map_option slot_state (node_at (modify_at toggle p r) q) = map_option slot_state (node_at r q)"
    by (rule node_at_modify_at_other)
next
  assume "exclusive r"
  then show "modify_at toggle p (modify_at toggle p r) = r" by (rule toggle_twice_exclusive)
next
  assume "on_click p (r, i, elems) = Inr (r', i', elems')"
  then show "strip_ids r' = strip_ids (modify_at toggle p r)" by (rule on_click_strip)
next
  assume "exclusive r \<and> on_click p (r, i, elems) = Inr (r', i', elems')
        \<and> on_click p (r', i', elems') = Inr (r'', i'', elems'')"
  then show "strip_ids r'' = strip_ids r" using two_clicks_strip by blast
qed

theorem click_toggles_one_node_witness:
  "node_at
     (RNode ''A'' (Some [RNode ''B'' None (Some [RNode ''D'' None None None]) (Some 2),
                         RNode ''C'' None None (Some 3)]) None (Some 1)) [0]
     = Some (RNode ''B'' None (Some [RNode ''D'' None None None]) (Some 2))
   \<and> node_at (modify_at toggle [0]
       (RNode ''A'' (Some [RNode ''B'' None (Some [RNode ''D'' None None None]) (Some 2),
                           RNode ''C'' None None (Some 3)]) None (Some 1))) [0]
     = Some (RNode ''B'' (Some [RNode ''D'' None None None]) None (Some 2))
   \<and> exclusive
     (RNode ''A'' (Some [RNode ''B'' None (Some [RNode ''D'' None None None]) (Some 2),
                         RNode ''C'' None None (Some 3)]) None (Some 1))
   \<and> on_click [0]
       (RNode ''A'' (Some [RNode ''B'' None (Some [RNode ''D'' None None None]) (Some 2),
                           RNode ''C'' None None (Some 3)]) None (Some 1), Some 3, [1, 2, 3])
     = Inr (RNode ''A'' (Some [RNode ''B'' (Some [RNode ''D'' None None (Some 4)]) None (Some 2),
                               RNode ''C'' None None (Some 3)]) None (Some 1), Some 4, [1, 2, 3, 4])
   \<and> on_click [0]
       (RNode ''A'' (Some [RNode ''B'' (Some [RNode ''D'' None None (Some 4)]) None (Some 2),
                           RNode ''C'' None None (Some 3)]) None (Some 1), Some 4, [1, 2, 3, 4])
     = Inr (RNode ''A'' (Some [RNode ''B'' None (Some [RNode ''D'' None None (Some 4)]) (Some 2),
                               RNode ''C'' None None (Some 3)]) None (Some 1), Some 4, [1, 2, 3])
   \<and> strip_ids
       (RNode ''A'' (Some [RNode ''B'' None (Some [RNode ''D'' None None (Some 4)]) (Some 2),
                           RNode ''C'' None None (Some 3)]) None (Some 1))
     = strip_ids
       (RNode ''A'' (Some [RNode ''B'' None (Some [RNode ''D'' None None None]) (Some 2),
                           RNode ''C'' None None (Some 3)]) None (Some 1))
   \<and> [1] \<noteq> [0 :: nat]
   \<and> map_option slot_state
       (node_at (modify_at toggle [0]
          (RNode ''A'' (Some [RNode ''B'' None (Some [RNode ''D'' None None None]) (Some 2),
                              RNode ''C'' None None (Some 3)]) None (Some 1))) [1])
     = Some (None, None)
   \<and> modify_at toggle [0] (modify_at toggle [0]
       (RNode ''A'' (Some [RNode ''B'' None (Some [RNode ''D'' None None None]) (Some 2),
                           RNode ''C'' None None (Some 3)]) None (Some 1)))
     = RNode ''A'' (Some [RNode ''B'' None (Some [RNode ''D'' None None None]) (Some 2),
                         RNode ''C'' None None (Some 3)]) None (Some 1)"
proof -
  let ?b = "RNode ''B'' None (Some [RNode ''D'' None None None]) (Some 2)"
  let ?r0 = "RNode ''A'' (Some [RNode ''B'' None (Some [RNode ''D'' None None None]) (Some 2),
                         RNode ''C'' None None (Some 3)]) None (Some 1)"
  let ?r1 = "RNode ''A'' (Some [RNode ''B'' (Some [RNode ''D'' None None (Some 4)]) None (Some 2),
                               RNode ''C'' None None (Some 3)]) None (Some 1)"
  let ?r2 = "RNode ''A'' (Some [RNode ''B'' None (Some [RNode ''D'' None None (Some 4)]) (Some 2),
                               RNode ''C'' None None (Some 3)]) None (Some 1)"
  have n: "node_at ?r0 [0] = Some ?b" by code_simp
  have tb: "toggle ?b = RNode ''B'' (Some [RNode ''D'' None None None]) None (Some 2)" by code_simp
  have e: "exclusive ?r0" by code_simp
  have c1: "on_click [0] (?r0, Some 3, [1, 2, 3]) = Inr (?r1, Some 4, [1, 2, 3, 4])" by code_simp
  have c2: "on_click [0] (?r1, Some 4, [1, 2, 3, 4]) = Inr (?r2, Some 4, [1, 2, 3])" by code_simp
  have q: "[1] \<noteq> [0::nat]" by simp
  have s: "map_option slot_state (node_at ?r0 [1]) = Some (None, None)" by code_simp
  note inst = click_toggles_one_node[where r = ?r0 and p = "[0]" and d = ?b and q = "[1]"
      and i = "Some 3" and elems = "[1, 2, 3]" and r' = ?r1 and i' = "Some 4"
      and elems' = "[1, 2, 3, 4]" and r'' = ?r2 and i'' = "Some 4" and elems'' = "[1, 2, 3]"]
  from inst n have "node_at (modify_at toggle [0] ?r0) [0] = Some (toggle ?b)" by blast
  then have m: "node_at (modify_at toggle [0] ?r0) [0]
      = Some (RNode ''B'' (Some [RNode ''D'' None None None]) None (Some 2))"
    unfolding tb .
  from inst e c1 c2 have a: "strip_ids ?r2 = strip_ids ?r0" by blast
  from inst q s have b: "map_option slot_state (node_at (modify_at toggle [0] ?r0) [1]) = Some (None, None)"
    by metis
  from inst e have t: "modify_at toggle [0] (modify_at toggle [0] ?r0) = ?r0" by blast
  from n m e c1 c2 a q b t show ?thesis by blast
qed

text \<open>
  Whenever \<open>update\<close> returns (which it does once \<^verbatim>\<open>i\<close> is bound), a node object that
  has an id keeps it.
\<close>

lemma id_modify_at_Cons: "r_id (modify_at f (i # p) n) = r_id n"
  by (cases n) (simp split: option.splits)

lemma node_at_replace_other:
  "node_at r p = Some d \<Longrightarrow> kids d' = kids d \<Longrightarrow> q \<noteq> p \<Longrightarrow>
   map_option r_id (node_at (modify_at (\<lambda>_. d') p r) q) = map_option r_id (node_at r q)"
proof (induction p arbitrary: q r)
  case Nil
  then obtain j q' where q: "q = j # q'" by (cases q) auto
  from Nil have "r = d" by simp
  then show ?case using Nil(2) by (simp add: q)
next
  case (Cons i p)
  from Cons.prems(1) have i: "i < length (kids r)" and d: "node_at (kids r ! i) p = Some d"
    by (simp_all split: if_splits)
  show ?case
  proof (cases q)
    case Nil
    then show ?thesis by (simp del: modify_at.simps add: id_modify_at_Cons)
  next
    case (Cons j q')
    show ?thesis
    proof (cases "j = i")
      case True
      with Cons Cons.prems have "q' \<noteq> p" by simp
      from Cons.IH[OF d Cons.prems(2) this] show ?thesis
        by (simp only: Cons True node_at.simps kids_modify_at_Cons) (simp split: if_splits)
    next
      case False
      then show ?thesis
        by (simp only: Cons node_at.simps kids_modify_at_Cons) (simp split: if_splits)
    qed
  qed
qed

lemma node_key_kids: "node_key i d = Inr (k, d', i') \<Longrightarrow> kids d' = kids d"
  by (cases d) (auto simp: node_key_def kids_def split: option.splits if_splits)

lemma node_keys_keep_id:
  "node_keys i ps r = Inr (ks, r', i') \<Longrightarrow> node_at r q = Some d \<Longrightarrow> r_id d = Some k \<Longrightarrow> k \<noteq> 0 \<Longrightarrow>
   map_option r_id (node_at r' q) = Some (Some k)"
proof (induction ps arbitrary: i r ks d)
  case Nil
  then show ?case by simp
next
  case (Cons p ps)
  show ?case
  proof (cases "node_at r p")
    case None
    with Cons show ?thesis by simp
  next
    case (Some e)
    with Cons.prems(1) obtain k' e' j ks' where
      nk: "node_key i e = Inr (k', e', j)" and
      rest: "node_keys j ps (modify_at (\<lambda>_. e') p r) = Inr (ks', r', i')"
      by (auto split: sum.splits prod.splits)
    have "map_option r_id (node_at (modify_at (\<lambda>_. e') p r) q) = Some (Some k)"
    proof (cases "q = p")
      case True
      with Some Cons.prems(2) have "e = d" by simp
      with nk Cons.prems(3,4) have "e' = d" by (simp add: node_key_reuses_id)
      then show ?thesis using True Some Cons.prems(3) \<open>e = d\<close> by (simp add: node_at_modify_at)
    next
      case False
      from node_at_replace_other[OF Some node_key_kids[OF nk] False] Cons.prems(2,3)
      show ?thesis by simp
    qed
    then obtain d2 where "node_at (modify_at (\<lambda>_. e') p r) q = Some d2" "r_id d2 = Some k"
      by auto
    from Cons.IH[OF rest this Cons.prems(4)] show ?thesis .
  qed
qed

lemma update_keeps_id:
  "update src (r, i, elems) = Inr (r', i', elems') \<Longrightarrow> node_at r q = Some d \<Longrightarrow>
   r_id d = Some k \<Longrightarrow> k \<noteq> 0 \<Longrightarrow> map_option r_id (node_at r' q) = Some (Some k)"
  by (auto simp: update_def Let_def split: sum.splits prod.splits dest: node_keys_keep_id)

subsection \<open>Summary text\<close>

lemma format_short_example:
  "formatSummaries (Some example_summary) ''short'' = ''<strong>Short Summary:</strong> : foo.''"
  by code_simp

lemma format_long_example:
  "formatSummaries (Some example_summary) ''long'' = '' : bar.''"
  by code_simp

lemma clean_short_example:
  "cleanSummary (Some ''<strong>Short Summary:</strong> : foo.'') = ''<strong>Short Summary:</strong> : foo.''"
  by code_simp

lemma clean_long_example: "cleanSummary (Some '' : bar.'') = '' : bar.''"
  by code_simp

text \<open>
  Claim C8, as stated, fails on both counts: neither pattern consumes the colon after the
  section label, so the colon stays at the head of the extracted section.
\<close>

theorem summary_example_counterexample:
  "formatSummaries (Some example_summary) ''short'' \<noteq> ''<strong>Short Summary:</strong> foo.''
   \<and> formatSummaries (Some example_summary) ''long'' \<noteq> '' bar.''"
  by (simp add: format_short_example format_long_example)

text \<open>
  Claim C8, amended.  On the example text \<open>formatSummaries\<close> yields
  \<^verbatim>\<open><strong>Short Summary:</strong> : foo.\<close> for the type short and \<^verbatim>\<open> : bar.\<close> for the
  type long, and \<open>cleanSummary\<close>, which the pages apply to the result, changes nothing.
\<close>

theorem summary_example:
  "formatSummaries (Some example_summary) ''short'' = ''<strong>Short Summary:</strong> : foo.''
   \<and> formatSummaries (Some example_summary) ''long'' = '' : bar.''
   \<and> cleanSummary (Some (formatSummaries (Some example_summary) ''short''))
        = ''<strong>Short Summary:</strong> : foo.''
   \<and> cleanSummary (Some (formatSummaries (Some example_summary) ''long'')) = '' : bar.''"
  by (simp add: format_short_example format_long_example clean_short_example clean_long_example)

subsection \<open>Paper list view\<close>

lemma prefix_take_iff: "prefix t s = (take (length t) s = t)"
proof
  assume "prefix t s"
  then obtain r where "s = t @ r" by (auto simp: prefix_def)
  then show "take (length t) s = t" by simp
next
  assume "take (length t) s = t"
  then show "prefix t s" by (metis take_is_prefix)
qed

lemma includes_js_sublist: "includes_js s t = sublist t s"
  by (induction s) (simp_all add: sublist_Cons_right prefix_take_iff)

lemma mset_insert_by: "mset (insert_by cmp x ys) = add_mset x (mset ys)"
  by (induction ys) simp_all

lemma mset_sort_by: "mset (sort_by cmp xs) = mset xs"
  by (induction xs) (simp_all add: sort_by_def mset_insert_by)

lemma set_insert_by: "set (insert_by cmp x ys) = insert x (set ys)"
  by (induction ys) auto

lemma set_sort_by: "set (sort_by cmp xs) = set xs"
  by (induction xs) (simp_all add: sort_by_def set_insert_by)

lemma conforming_sort_by: "conforming_sort sort_by"
  by (simp add: conforming_sort_def mset_sort_by)

lemma sorted_insert_by:
  assumes after: "\<And>a b. a \<in> A \<Longrightarrow> b \<in> A \<Longrightarrow> sort_compare cmp a b > 0 \<Longrightarrow> le b a"
    and before: "\<And>a b. a \<in> A \<Longrightarrow> b \<in> A \<Longrightarrow> \<not> sort_compare cmp a b > 0 \<Longrightarrow> le a b"
    and trans: "\<And>a b c. a \<in> A \<Longrightarrow> b \<in> A \<Longrightarrow> c \<in> A \<Longrightarrow> le a b \<Longrightarrow> le b c \<Longrightarrow> le a c"
  shows "x \<in> A \<Longrightarrow> set ys \<subseteq> A \<Longrightarrow> sorted_wrt le ys \<Longrightarrow> sorted_wrt le (insert_by cmp x ys)"
proof (induction ys)
  case Nil
  then show ?case by simp
next
  case (Cons y ys)
  show ?case
  proof (cases "sort_compare cmp x y > 0")
    case True
    have "le y x" using after Cons.prems True by simp
    moreover have "sorted_wrt le (insert_by cmp x ys)" using Cons by simp
    ultimately show ?thesis using True Cons.prems by (auto simp: set_insert_by)
  next
    case False
    have xy: "le x y" using before Cons.prems False by simp
    have "le x z" if "z \<in> set ys" for z
    proof -
      have "le y z" using Cons.prems(3) that by simp
      with xy show ?thesis using trans[of x y z] Cons.prems that by auto
    qed
    then show ?thesis using False xy Cons.prems by auto
  qed
qed

lemma sorted_sort_by:
  assumes after: "\<And>a b. a \<in> A \<Longrightarrow> b \<in> A \<Longrightarrow> sort_compare cmp a b > 0 \<Longrightarrow> le b a"
    and before: "\<And>a b. a \<in> A \<Longrightarrow> b \<in> A \<Longrightarrow> \<not> sort_compare cmp a b > 0 \<Longrightarrow> le a b"
    and trans: "\<And>a b c. a \<in> A \<Longrightarrow> b \<in> A \<Longrightarrow> c \<in> A \<Longrightarrow> le a b \<Longrightarrow> le b c \<Longrightarrow> le a c"
  shows "set xs \<subseteq> A \<Longrightarrow> sorted_wrt le (sort_by cmp xs)"
proof (induction xs)
  case Nil
  then show ?case by (simp add: sort_by_def)
next
  case (Cons x xs)
  have "sorted_wrt le (insert_by cmp x (sort_by cmp xs))"
  proof (rule sorted_insert_by[where A = A])
    show "x \<in> A" using Cons.prems by simp
    show "set (sort_by cmp xs) \<subseteq> A" using Cons.prems by (simp add: set_sort_by)
    show "sorted_wrt le (sort_by cmp xs)" using Cons by simp
  qed (fact after before trans)+
  then show ?case by (simp add: sort_by_def)
qed

text \<open>
  What a consistent comparator gives: of two values in opposite orders one is not after
  the other, and not being after is transitive.
\<close>

lemma consistent_less_greater:
  assumes c: "consistent_comparator S cmp" and s: "a \<in> S" "b \<in> S"
    and l: "sort_compare cmp a b < 0"
  shows "sort_compare cmp b a > 0"
proof (rule ccontr)
  assume "\<not> sort_compare cmp b a > 0"
  then consider "sort_compare cmp b a < 0" | "sort_compare cmp b a = 0" by linarith
  then show False
  proof cases
    case 1
    have "sort_compare cmp a a < 0"
      using c s l 1 unfolding consistent_comparator_def by blast
    moreover have "sort_compare cmp a a = 0"
      using c s unfolding consistent_comparator_def by blast
    ultimately show False by simp
  next
    case 2
    have "sort_compare cmp a b = 0"
      using c s 2 unfolding consistent_comparator_def by blast
    with l show False by simp
  qed
qed

lemma consistent_greater_less:
  assumes c: "consistent_comparator S cmp" and s: "a \<in> S" "b \<in> S"
    and l: "sort_compare cmp a b > 0"
  shows "sort_compare cmp b a < 0"
proof (rule ccontr)
  assume "\<not> sort_compare cmp b a < 0"
  then consider "sort_compare cmp b a > 0" | "sort_compare cmp b a = 0" by linarith
  then show False
  proof cases
    case 1
    have "sort_compare cmp a a > 0"
      using c s l 1 unfolding consistent_comparator_def by blast
    moreover have "sort_compare cmp a a = 0"
      using c s unfolding consistent_comparator_def by blast
    ultimately show False by simp
  next
    case 2
    have "sort_compare cmp a b = 0"
      using c s 2 unfolding consistent_comparator_def by blast
    with l show False by simp
  qed
qed

lemma consistent_not_after_trans:
  assumes c: "consistent_comparator S cmp" and s: "a \<in> S" "b \<in> S" "d \<in> S"
    and ab: "sort_compare cmp a b \<le> 0" and bd: "sort_compare cmp b d \<le> 0"
  shows "sort_compare cmp a d \<le> 0"
proof (rule ccontr)
  assume "\<not> sort_compare cmp a d \<le> 0"
  then have ad: "sort_compare cmp a d > 0" by simp
  have da: "sort_compare cmp d a < 0" by (rule consistent_greater_less[OF c s(1) s(3) ad])
  consider "sort_compare cmp a b < 0" | "sort_compare cmp a b = 0" using ab by linarith
  then show False
  proof cases
    case 1
    have "sort_compare cmp d b < 0"
      using c s da 1 unfolding consistent_comparator_def by blast
    then have "sort_compare cmp b d > 0" by (rule consistent_less_greater[OF c s(3) s(2)])
    with bd show False by simp
  next
    case 2
    consider "sort_compare cmp b d < 0" | "sort_compare cmp b d = 0" using bd by linarith
    then show False
    proof cases
      case 1
      have "sort_compare cmp b a < 0"
        using c s da 1 unfolding consistent_comparator_def by blast
      then have "sort_compare cmp a b > 0" by (rule consistent_less_greater[OF c s(2) s(1)])
      with 2 show False by simp
    next
      case 3: 2
      have "sort_compare cmp a d = 0"
        using c s 2 3 unfolding consistent_comparator_def by blast
      with ad show False by simp
    qed
  qed
qed

lemma consistent_subset:
  "consistent_comparator S cmp \<Longrightarrow> T \<subseteq> S \<Longrightarrow> consistent_comparator T cmp"
  unfolding consistent_comparator_def by blast

lemma sorted_consistent:
  assumes c: "consistent_comparator (set xs) cmp"
  shows "sorted_wrt (\<lambda>a b. sort_compare cmp a b \<le> 0) (sort_by cmp xs)"
proof (rule sorted_sort_by[where A = "set xs"])
  fix a b assume "a \<in> set xs" "b \<in> set xs" "0 < sort_compare cmp a b"
  then show "sort_compare cmp b a \<le> 0" using consistent_greater_less[OF c] by fastforce
next
  fix a b assume "\<not> 0 < sort_compare cmp a b"
  then show "sort_compare cmp a b \<le> 0" by simp
next
  fix a b d assume "a \<in> set xs" "b \<in> set xs" "d \<in> set xs"
    "sort_compare cmp a b \<le> 0" "sort_compare cmp b d \<le> 0"
  then show "sort_compare cmp a d \<le> 0" by (rule consistent_not_after_trans[OF c])
qed simp

lemma by_date_consistent:
  assumes "\<forall>p\<in>S. time_value (p_published_date p) \<noteq> None"
  shows "consistent_comparator S (by_date time_value)"
  unfolding consistent_comparator_def
proof (intro ballI)
  fix a b c assume "a \<in> S" "b \<in> S" "c \<in> S"
  then obtain ta tb tc where "time_value (p_published_date a) = Some ta"
    "time_value (p_published_date b) = Some tb" "time_value (p_published_date c) = Some tc"
    using assms by fastforce
  then show "by_date time_value a b \<noteq> None
        \<and> sort_compare (by_date time_value) a a = 0
        \<and> (sort_compare (by_date time_value) a b = 0 \<longrightarrow> sort_compare (by_date time_value) b a = 0)
        \<and> (sort_compare (by_date time_value) a b = 0 \<and> sort_compare (by_date time_value) b c = 0 \<longrightarrow>
              sort_compare (by_date time_value) a c = 0)
        \<and> (sort_compare (by_date time_value) a b < 0 \<and> sort_compare (by_date time_value) b c < 0 \<longrightarrow>
              sort_compare (by_date time_value) a c < 0)
        \<and> (sort_compare (by_date time_value) a b > 0 \<and> sort_compare (by_date time_value) b c > 0 \<longrightarrow>
              sort_compare (by_date time_value) a c > 0)"
    by (simp add: by_date_def sort_compare_def)
qed

lemma newer_first_by_date:
  "time_value (p_published_date a) \<noteq> None \<Longrightarrow> time_value (p_published_date b) \<noteq> None \<Longrightarrow>
   newer_first time_value a b = (sort_compare (by_date time_value) a b \<le> 0)"
  by (auto simp: newer_first_def by_date_def sort_compare_def split: option.splits)

text \<open>
  Claim C9, as stated, fails for the default sort when a date on the page is invalid:
  the comparator of line 71 then returns NaN for every comparison with that paper, the
  sort takes NaN for 0, and comparing neighbours it moves nothing.  A page with the
  dates 2021, an invalid one and 2023 is rendered in that order, the paper of 2021
  before the paper of 2023.
\<close>

theorem paper_list_view_counterexample:
  "loadPapers sort_by (\<lambda>a b. 0)
       (\<lambda>s. if s = ''2021-03-01'' then Some 1614556800
             else if s = ''2023-01-09'' then Some 1673222400 else None)
       True None None
       [\<lparr>p_title = ''Graph Theory'', p_published_date = ''2021-03-01''\<rparr>,
        \<lparr>p_title = ''Neural nets'', p_published_date = ''to appear''\<rparr>,
        \<lparr>p_title = ''Deep Learning'', p_published_date = ''2023-01-09''\<rparr>]
     = Some [\<lparr>p_title = ''Graph Theory'', p_published_date = ''2021-03-01''\<rparr>,
             \<lparr>p_title = ''Neural nets'', p_published_date = ''to appear''\<rparr>,
             \<lparr>p_title = ''Deep Learning'', p_published_date = ''2023-01-09''\<rparr>]
   \<and> \<not> sorted_wrt (newer_first
         (\<lambda>s. if s = ''2021-03-01'' then Some 1614556800
               else if s = ''2023-01-09'' then Some 1673222400 else None))
       [\<lparr>p_title = ''Graph Theory'', p_published_date = ''2021-03-01''\<rparr>,
        \<lparr>p_title = ''Neural nets'', p_published_date = ''to appear''\<rparr>,
        \<lparr>p_title = ''Deep Learning'', p_published_date = ''2023-01-09''\<rparr>]
   \<and> \<not> newer_first
         (\<lambda>s. if s = ''2021-03-01'' then Some 1614556800
               else if s = ''2023-01-09'' then Some 1673222400 else None)
       \<lparr>p_title = ''Graph Theory'', p_published_date = ''2021-03-01''\<rparr>
       \<lparr>p_title = ''Deep Learning'', p_published_date = ''2023-01-09''\<rparr>"
  by (simp add: loadPapers_def sort_by_def sort_compare_def by_date_def newer_first_def)

text \<open>
  Claim C9, amended.  Let the sort of the engine conform to ECMAScript.  For every
  fetched page, search value and sort selection, on a document with the grid, the papers
  that get a card are exactly (as a multiset) the papers of the page whose lower-cased
  title contains the lower-cased search value as a contiguous substring.  With the title
  sort they are in the order of \<^verbatim>\<open>localeCompare\<close> on the titles, provided the comparator
  of line 69 is consistent on them; otherwise (the default) they are in descending order
  of the published date, provided the date of every paper shown is valid.
\<close>

theorem paper_list_view:
  assumes conf: "conforming_sort array_sort"
  shows "\<exists>shown. loadPapers array_sort localeCompare time_value True searchInput sortSelect papers
                   = Some shown
     \<and> mset shown =
         mset (filter (\<lambda>p. sublist (toLowerCase (case searchInput of None \<Rightarrow> [] | Some v \<Rightarrow> v))
                                   (toLowerCase (p_title p))) papers)
     \<and> (sortSelect = Some ''title'' \<and> consistent_comparator (set shown) (by_title localeCompare) \<longrightarrow>
          sorted_wrt (\<lambda>a b. localeCompare (p_title a) (p_title b) \<le> 0) shown)
     \<and> (sortSelect \<noteq> Some ''title''
          \<and> list_all (\<lambda>p. time_value (p_published_date p) \<noteq> None) shown \<longrightarrow>
          sorted_wrt (newer_first time_value) shown)"
proof -
  let ?needle = "case searchInput of None \<Rightarrow> [] | Some v \<Rightarrow> toLowerCase v"
  let ?found = "if ?needle \<noteq> []
                then filter (\<lambda>p. includes_js (toLowerCase (p_title p)) ?needle) papers
                else papers"
  let ?shown = "if sortSelect = Some ''title''
                then array_sort (by_title localeCompare) ?found
                else array_sort (by_date time_value) ?found"
  have l: "loadPapers array_sort localeCompare time_value True searchInput sortSelect papers = Some ?shown"
    by (simp add: loadPapers_def Let_def)
  have needle: "?needle = toLowerCase (case searchInput of None \<Rightarrow> [] | Some v \<Rightarrow> v)"
    by (simp add: toLowerCase_def split: option.splits)
  have found: "?found = filter (\<lambda>p. sublist ?needle (toLowerCase (p_title p))) papers"
    by (cases "?needle = []") (simp_all add: includes_js_sublist)
  have perm: "mset (array_sort cmp xs) = mset xs" for cmp and xs :: "paper list"
    using conf unfolding conforming_sort_def by blast
  have stable: "array_sort cmp xs = sort_by cmp xs"
    if "consistent_comparator (set xs) cmp" for cmp and xs :: "paper list"
    using conf that unfolding conforming_sort_def by blast
  have m: "mset ?shown = mset ?found" by (simp add: perm)
  then have s: "set ?shown = set ?found" by (rule mset_eq_setD)
  have t: "sorted_wrt (\<lambda>a b. localeCompare (p_title a) (p_title b) \<le> 0) ?shown"
    if sel: "sortSelect = Some ''title''"
      and c: "consistent_comparator (set ?shown) (by_title localeCompare)"
  proof -
    from c s have c': "consistent_comparator (set ?found) (by_title localeCompare)" by simp
    have "sorted_wrt (\<lambda>a b. sort_compare (by_title localeCompare) a b \<le> 0)
            (sort_by (by_title localeCompare) ?found)"
      by (rule sorted_consistent[OF c'])
    then have "sorted_wrt (\<lambda>a b. localeCompare (p_title a) (p_title b) \<le> 0)
            (sort_by (by_title localeCompare) ?found)"
      by (simp add: sort_compare_def by_title_def)
    then show ?thesis using sel stable[OF c'] by simp
  qed
  have d: "sorted_wrt (newer_first time_value) ?shown"
    if sel: "sortSelect \<noteq> Some ''title''"
      and v: "list_all (\<lambda>p. time_value (p_published_date p) \<noteq> None) ?shown"
  proof -
    from v s have v': "\<forall>p\<in>set ?found. time_value (p_published_date p) \<noteq> None"
      by (simp add: list_all_iff)
    then have c': "consistent_comparator (set ?found) (by_date time_value)"
      by (rule by_date_consistent)
    have "sorted_wrt (\<lambda>a b. sort_compare (by_date time_value) a b \<le> 0)
            (sort_by (by_date time_value) ?found)"
      by (rule sorted_consistent[OF c'])
    then have "sorted_wrt (newer_first time_value) (sort_by (by_date time_value) ?found)"
      by (rule sorted_wrt_mono_rel[rotated])
         (simp add: newer_first_by_date v' set_sort_by)
    then show ?thesis using sel stable[OF c'] by simp
  qed
  have m': "mset ?shown =
         mset (filter (\<lambda>p. sublist (toLowerCase (case searchInput of None \<Rightarrow> [] | Some v \<Rightarrow> v))
                                   (toLowerCase (p_title p))) papers)"
    using m found needle by simp
  from l m' t d show ?thesis by blast
qed

theorem paper_list_view_witness:
  "conforming_sort (sort_by :: (paper \<Rightarrow> paper \<Rightarrow> int option) \<Rightarrow> paper list \<Rightarrow> paper list)
   \<and> loadPapers sort_by (\<lambda>a b. int (length a) - int (length b))
       (\<lambda>s. if s = ''2021-03-01'' then Some 1614556800 else if s = ''2022-07-15'' then Some 1657843200
             else None)
       True (Some ''GRAPH'') None
       [\<lparr>p_title = ''Graph Theory'', p_published_date = ''2021-03-01''\<rparr>,
        \<lparr>p_title = ''Deep Learning'', p_published_date = ''to appear''\<rparr>,
        \<lparr>p_title = ''Neural graph nets'', p_published_date = ''2022-07-15''\<rparr>]
     = Some [\<lparr>p_title = ''Neural graph nets'', p_published_date = ''2022-07-15''\<rparr>,
             \<lparr>p_title = ''Graph Theory'', p_published_date = ''2021-03-01''\<rparr>]
   \<and> list_all (\<lambda>p. (\<lambda>s. if s = ''2021-03-01'' then Some 1614556800
                         else if s = ''2022-07-15'' then Some (1657843200 :: int)
                         else None) (p_published_date p) \<noteq> None)
       [\<lparr>p_title = ''Neural graph nets'', p_published_date = ''2022-07-15''\<rparr>,
        \<lparr>p_title = ''Graph Theory'', p_published_date = ''2021-03-01''\<rparr>]
   \<and> sorted_wrt (newer_first
       (\<lambda>s. if s = ''2021-03-01'' then Some 1614556800 else if s = ''2022-07-15'' then Some 1657843200
             else None))
       [\<lparr>p_title = ''Neural graph nets'', p_published_date = ''2022-07-15''\<rparr>,
        \<lparr>p_title = ''Graph Theory'', p_published_date = ''2021-03-01''\<rparr>]
   \<and> loadPapers sort_by (\<lambda>a b. int (length a) - int (length b))
       (\<lambda>s. if s = ''2021-03-01'' then Some 1614556800 else if s = ''2022-07-15'' then Some 1657843200
             else None)
       True (Some ''GRAPH'') (Some ''title'')
       [\<lparr>p_title = ''Neural graph nets'', p_published_date = ''2022-07-15''\<rparr>,
        \<lparr>p_title = ''Deep Learning'', p_published_date = ''to appear''\<rparr>,
        \<lparr>p_title = ''Graph Theory'', p_published_date = ''2021-03-01''\<rparr>]
     = Some [\<lparr>p_title = ''Graph Theory'', p_published_date = ''2021-03-01''\<rparr>,
             \<lparr>p_title = ''Neural graph nets'', p_published_date = ''2022-07-15''\<rparr>]
   \<and> consistent_comparator
       (set [\<lparr>p_title = ''Graph Theory'', p_published_date = ''2021-03-01''\<rparr>,
             \<lparr>p_title = ''Neural graph nets'', p_published_date = ''2022-07-15''\<rparr>])
       (by_title (\<lambda>a b. int (length a) - int (length b)))
   \<and> sorted_wrt (\<lambda>a b. int (length (p_title a)) - int (length (p_title b)) \<le> 0)
       [\<lparr>p_title = ''Graph Theory'', p_published_date = ''2021-03-01''\<rparr>,
        \<lparr>p_title = ''Neural graph nets'', p_published_date = ''2022-07-15''\<rparr>]"
proof -
  let ?tv = "\<lambda>s. if s = ''2021-03-01'' then Some 1614556800 else if s = ''2022-07-15'' then Some (1657843200 :: int)
             else None"
  let ?lc = "\<lambda>a b :: string. int (length a) - int (length b)"
  let ?ps = "[\<lparr>p_title = ''Graph Theory'', p_published_date = ''2021-03-01''\<rparr>,
        \<lparr>p_title = ''Deep Learning'', p_published_date = ''to appear''\<rparr>,
        \<lparr>p_title = ''Neural graph nets'', p_published_date = ''2022-07-15''\<rparr>]"
  let ?out = "[\<lparr>p_title = ''Neural graph nets'', p_published_date = ''2022-07-15''\<rparr>,
             \<lparr>p_title = ''Graph Theory'', p_published_date = ''2021-03-01''\<rparr>]"
  let ?qs = "[\<lparr>p_title = ''Neural graph nets'', p_published_date = ''2022-07-15''\<rparr>,
        \<lparr>p_title = ''Deep Learning'', p_published_date = ''to appear''\<rparr>,
        \<lparr>p_title = ''Graph Theory'', p_published_date = ''2021-03-01''\<rparr>]"
  let ?out2 = "[\<lparr>p_title = ''Graph Theory'', p_published_date = ''2021-03-01''\<rparr>,
             \<lparr>p_title = ''Neural graph nets'', p_published_date = ''2022-07-15''\<rparr>]"
  have conf: "conforming_sort (sort_by :: (paper \<Rightarrow> paper \<Rightarrow> int option) \<Rightarrow> paper list \<Rightarrow> paper list)"
    by (rule conforming_sort_by)
  have v: "list_all (\<lambda>p. ?tv (p_published_date p) \<noteq> None) ?out" by simp
  have l: "loadPapers sort_by ?lc ?tv True (Some ''GRAPH'') None ?ps = Some ?out" by code_simp
  have n: "(None :: string option) \<noteq> Some ''title''" by simp
  from paper_list_view[OF conf, of ?lc ?tv "Some ''GRAPH''" None ?ps] obtain shown where
    s: "loadPapers sort_by ?lc ?tv True (Some ''GRAPH'') None ?ps = Some shown"
      "None \<noteq> Some ''title'' \<and> list_all (\<lambda>p. ?tv (p_published_date p) \<noteq> None) shown \<longrightarrow>
          sorted_wrt (newer_first ?tv) shown" by blast
  from s(1) l have "shown = ?out" by simp
  with s(2) v n have d: "sorted_wrt (newer_first ?tv) ?out" by blast
  have c: "consistent_comparator (set ?out2) (by_title ?lc)"
    by (simp add: consistent_comparator_def by_title_def sort_compare_def)
  have l2: "loadPapers sort_by ?lc ?tv True (Some ''GRAPH'') (Some ''title'') ?qs = Some ?out2" by code_simp
  from paper_list_view[OF conf, of ?lc ?tv "Some ''GRAPH''" "Some ''title''" ?qs] obtain shown2 where
    s2: "loadPapers sort_by ?lc ?tv True (Some ''GRAPH'') (Some ''title'') ?qs = Some shown2"
      "Some ''title'' = Some ''title'' \<and> consistent_comparator (set shown2) (by_title ?lc) \<longrightarrow>
          sorted_wrt (\<lambda>a b. ?lc (p_title a) (p_title b) \<le> 0) shown2" by blast
  from s2(1) l2 have "shown2 = ?out2" by simp
  with s2(2) c have t: "sorted_wrt (\<lambda>a b. ?lc (p_title a) (p_title b) \<le> 0) ?out2" by blast
  from conf v l d c l2 t show ?thesis by blast
qed

end
